theory Spec2Isabelle
  imports Complex_Main "HOL-Library.Log_Nat"
begin

section \<open>Failures and vector access\<close>

text \<open>
  The C++ source stops in two ways besides returning: an \<open>assert\<close> that fails, and an
  unchecked \<open>vector::operator[]\<close> or \<open>back()\<close> outside the vector, which is undefined
  behaviour. Both are values of the model. C++ \<open>int\<close> is modelled as \<open>int\<close>: signed
  overflow is undefined behaviour in the source and lies outside the executions modelled,
  except in the sum of \<open>_GetAveragePacketSize\<close>, where the wrap-around of the 32-bit type is
  written out.
\<close>

datatype error = AssertionFailed | OutOfBounds

definition seq :: "error + 'a \<Rightarrow> ('a \<Rightarrow> error + 'b) \<Rightarrow> error + 'b" where
  "seq m f = (case m of Inl e \<Rightarrow> Inl e | Inr x \<Rightarrow> f x)"

definition assert :: "bool \<Rightarrow> error + unit" where
  "assert b = (if b then Inr () else Inl AssertionFailed)"

definition elem :: "'a list \<Rightarrow> int \<Rightarrow> error + 'a" where
  "elem v i = (if 0 \<le> i \<and> i < int (length v) then Inr (v ! nat i) else Inl OutOfBounds)"

definition put :: "'a list \<Rightarrow> int \<Rightarrow> 'a \<Rightarrow> error + 'a list" where
  "put v i x = (if 0 \<le> i \<and> i < int (length v) then Inr (v[nat i := x]) else Inl OutOfBounds)"

definition vback :: "'a list \<Rightarrow> error + 'a" where
  "vback v = (if v = [] then Inl OutOfBounds else Inr (last v))"

definition elem2 :: "'a list list \<Rightarrow> int \<Rightarrow> int \<Rightarrow> error + 'a" where
  "elem2 m i j = seq (elem m i) (\<lambda>row. elem row j)"

definition put2 :: "'a list list \<Rightarrow> int \<Rightarrow> int \<Rightarrow> 'a \<Rightarrow> error + 'a list list" where
  "put2 m i j x = seq (elem m i) (\<lambda>row. seq (put row j x) (\<lambda>row'. put m i row'))"

definition add2 :: "int list list \<Rightarrow> int \<Rightarrow> int \<Rightarrow> int \<Rightarrow> error + int list list" where
  "add2 m i j d = seq (elem2 m i j) (\<lambda>x. put2 m i j (x + d))"

definition resize :: "nat \<Rightarrow> 'a \<Rightarrow> 'a list \<Rightarrow> 'a list" where
  "resize n x v = take n v @ replicate (n - length v) x"

section \<open>Data model\<close>

datatype sim_state = warming_up | running | draining | done_sim

record flit =
  cl :: int
  src :: int
  dest :: int
  ttime :: int
  atime :: int
  tid :: int
  watch :: bool
  record_flag :: bool

text \<open>The arguments of one call of the base engine's \<open>_GeneratePacket\<close>.\<close>

record packet_request =
  g_source :: int
  g_dest :: int
  g_size :: int
  g_cl :: int
  g_time :: int
  g_tid :: int
  g_ttime :: int

text \<open>
  The members of \<open>SyntheticTrafficManager\<close> and of its base class that the source reads
  or writes. A latency collector (\<open>Stats\<close>) is the list of its samples. Everything else
  (the random stream, the traffic patterns, the network) is the opaque \<open>ext\<close>.
\<close>

record 'x state =
  classes :: nat
  nodes :: nat
  time :: int
  drain_time :: int
  sim_state :: sim_state
  requests_outstanding :: "int list list"
  packet_seq_no :: "int list list"
  partial_packets :: "flit list list list"
  measure_stats :: "int list"
  measured_in_flight_flits :: "flit list list"
  packet_size :: "int list list"
  packet_size_rate :: "int list list"
  packet_size_max_val :: "int list"
  reply_class :: "int list"
  request_class :: "int list"
  qtime :: "int list list"
  qdrained :: "bool list list"
  tlat_stats :: "int list list"
  pair_tlat :: "int list list list"
  overall_min_tlat :: "real list"
  overall_avg_tlat :: "real list"
  overall_max_tlat :: "real list"
  ext :: 'x

text \<open>
  The collaborators whose code is not part of the source: the uniform random source, the
  subclass's \<open>_IssuePacket\<close>, and the base engine's \<open>_GeneratePacket\<close>,
  \<open>_PacketsOutstanding\<close>, \<open>_ResetSim\<close>, \<open>_ClearStats\<close> and
  \<open>_UpdateOverallStats\<close>, the traffic pattern's \<open>reset\<close>, and the collector's
  \<open>Min\<close>, \<open>Average\<close> and \<open>Max\<close>.
\<close>

record 'x collab =
  RandomInt :: "int \<Rightarrow> 'x \<Rightarrow> int \<times> 'x"
  IssuePacket :: "int \<Rightarrow> int \<Rightarrow> 'x state \<Rightarrow> bool \<times> 'x state"
  GeneratePacket :: "packet_request \<Rightarrow> 'x state \<Rightarrow> 'x state"
  base_PacketsOutstanding :: "'x state \<Rightarrow> bool"
  base_ResetSim :: "'x state \<Rightarrow> 'x state"
  base_ClearStats :: "'x state \<Rightarrow> 'x state"
  base_UpdateOverallStats :: "'x state \<Rightarrow> 'x state"
  pattern_reset :: "int \<Rightarrow> 'x \<Rightarrow> 'x"
  Stats_Min :: "int list \<Rightarrow> real"
  Stats_Average :: "int list \<Rightarrow> real"
  Stats_Max :: "int list \<Rightarrow> real"

section \<open>Construction\<close>

text \<open>
  A configuration entry is either a scalar (the string form is empty and \<open>GetInt\<close> is
  read) or the tokenized string, one integer list per class.
\<close>

datatype setting = Scalar int | Lists "int list list"

text \<open>\<open>_packet_size\<close>: the configured lists, broadcast to the number of classes by
  repeating the last one.\<close>

definition init_packet_size :: "nat \<Rightarrow> setting \<Rightarrow> error + int list list" where
  "init_packet_size n cfg =
     (let v = (case cfg of Scalar k \<Rightarrow> [[k]] | Lists l \<Rightarrow> l)
      in seq (vback v) (\<lambda>b. Inr (resize n b v)))"

text \<open>The inner loop of the constructor over one class's rates: each rate is asserted
  non-negative and added to \<open>max_val\<close>.\<close>

fun check_rates :: "int list \<Rightarrow> int \<Rightarrow> error + int" where
  "check_rates [] max_val = Inr max_val"
| "check_rates (rate # rates) max_val =
     (if rate \<ge> 0 then check_rates rates (max_val + rate) else Inl AssertionFailed)"

text \<open>The loop over the classes for a tokenized \<open>packet_size_rate\<close>; the pair
  accumulates \<open>_packet_size_rate\<close> and \<open>_packet_size_max_val\<close>.\<close>

function rate_lists_loop ::
  "nat \<Rightarrow> int list list \<Rightarrow> int list list \<Rightarrow> nat \<Rightarrow> int list list \<times> int list
    \<Rightarrow> error + int list list \<times> int list" where
  "rate_lists_loop n psizes strs c acc =
     (if c < n then
        (case elem strs (int c) of
           Inl e \<Rightarrow> Inl e
         | Inr rates0 \<Rightarrow>
             (case vback rates0 of
                Inl e \<Rightarrow> Inl e
              | Inr b \<Rightarrow>
                  (case elem psizes (int c) of
                     Inl e \<Rightarrow> Inl e
                   | Inr psize \<Rightarrow>
                       (case check_rates (resize (length psize) b rates0) (- 1) of
                          Inl e \<Rightarrow> Inl e
                        | Inr max_val \<Rightarrow>
                            rate_lists_loop n psizes strs (Suc c)
                              (fst acc @ [resize (length psize) b rates0],
                               snd acc @ [max_val])))))
      else Inr acc)"
  by pat_completeness auto
termination
  by (relation "measure (\<lambda>(n, psizes, strs, c, acc). n - c)") auto

declare rate_lists_loop.simps [simp del]

text \<open>The loop over the classes for a scalar \<open>packet_size_rate\<close>.\<close>

function rate_scalar_loop ::
  "nat \<Rightarrow> int list list \<Rightarrow> int \<Rightarrow> nat \<Rightarrow> int list list \<times> int list
    \<Rightarrow> error + int list list \<times> int list" where
  "rate_scalar_loop n psizes rate c acc =
     (if c < n then
        (case elem psizes (int c) of
           Inl e \<Rightarrow> Inl e
         | Inr psize \<Rightarrow>
             rate_scalar_loop n psizes rate (Suc c)
               (fst acc @ [replicate (length psize) rate],
                snd acc @ [int (length psize) * rate - 1]))
      else Inr acc)"
  by pat_completeness auto
termination
  by (relation "measure (\<lambda>(n, psizes, rate, c, acc). n - c)") auto

declare rate_scalar_loop.simps [simp del]

definition init_packet_size_rate ::
  "nat \<Rightarrow> int list list \<Rightarrow> setting \<Rightarrow> error + int list list \<times> int list" where
  "init_packet_size_rate n psizes cfg =
     (case cfg of
        Scalar rate \<Rightarrow>
          seq (assert (rate \<ge> 0)) (\<lambda>_. rate_scalar_loop n psizes rate 0 ([], []))
      | Lists strs \<Rightarrow>
          seq (vback strs) (\<lambda>b. rate_lists_loop n psizes (resize n b strs) 0 ([], [])))"

text \<open>\<open>_reply_class\<close>: the configured array, or the scalar when the array is empty,
  broadcast like the sizes.\<close>

definition init_reply_class :: "nat \<Rightarrow> int list \<Rightarrow> int \<Rightarrow> int list" where
  "init_reply_class n arr k =
     (let v = (if arr = [] then arr @ [k] else arr) in resize n (last v) v)"

text \<open>The loop that inverts \<open>_reply_class\<close> into \<open>_request_class\<close>.\<close>

function request_class_loop :: "nat \<Rightarrow> int list \<Rightarrow> nat \<Rightarrow> int list \<Rightarrow> error + int list" where
  "request_class_loop n reply c request =
     (if c < n then
        (case elem reply (int c) of
           Inl e \<Rightarrow> Inl e
         | Inr rc \<Rightarrow>
             if rc \<ge> 0 then
               (case elem request rc of
                  Inl e \<Rightarrow> Inl e
                | Inr r \<Rightarrow>
                    if r < 0 then
                      (case put request rc (int c) of
                         Inl e \<Rightarrow> Inl e
                       | Inr request' \<Rightarrow> request_class_loop n reply (Suc c) request')
                    else Inl AssertionFailed)
             else request_class_loop n reply (Suc c) request)
      else Inr request)"
  by pat_completeness auto
termination
  by (relation "measure (\<lambda>(n, reply, c, request). n - c)") auto

declare request_class_loop.simps [simp del]

definition init_request_class :: "nat \<Rightarrow> int list \<Rightarrow> error + int list" where
  "init_request_class n reply = request_class_loop n reply 0 (resize n (- 1) [])"

section \<open>Packet-size sampling\<close>

text \<open>The scan of \<open>_GetNextPacketSize\<close>: the loop over all entries but the last, then the
  checked fallback.\<close>

function scan_sizes :: "int list \<Rightarrow> int list \<Rightarrow> int \<Rightarrow> nat \<Rightarrow> int \<Rightarrow> error + int" where
  "scan_sizes psize prate sizes i pct =
     (if int i < sizes - 1 then
        (case elem prate (int i) of
           Inl e \<Rightarrow> Inl e
         | Inr limit \<Rightarrow>
             if limit > pct then elem psize (int i)
             else scan_sizes psize prate sizes (Suc i) (pct - limit))
      else seq (vback prate) (\<lambda>b. seq (assert (b > pct)) (\<lambda>_. vback psize)))"
  by pat_completeness auto
termination
  by (relation "measure (\<lambda>(psize, prate, sizes, i, pct). nat (sizes - int i))") auto

declare scan_sizes.simps [simp del]

definition GetNextPacketSize :: "'x collab \<Rightarrow> 'x state \<Rightarrow> int \<Rightarrow> error + int \<times> 'x" where
  "GetNextPacketSize E st c =
     seq (assert (c \<ge> 0 \<and> c < int (classes st))) (\<lambda>_.
     seq (elem (packet_size st) c) (\<lambda>psize.
       if int (length psize) = 1 then seq (elem psize 0) (\<lambda>s. Inr (s, ext st))
       else
         seq (elem (packet_size_rate st) c) (\<lambda>prate.
         seq (elem (packet_size_max_val st) c) (\<lambda>max_val.
           case RandomInt E max_val (ext st) of (pct, x') \<Rightarrow>
             seq (scan_sizes psize prate (int (length psize)) 0 pct) (\<lambda>s. Inr (s, x'))))))"

text \<open>The walk over the (size, rate) pairs as the specification words it: subtract each
  rate from the draw until the remaining draw is smaller than the current rate.\<close>

fun walk_rates :: "(int \<times> int) list \<Rightarrow> int \<Rightarrow> int option" where
  "walk_rates [] d = None"
| "walk_rates ((s, r) # rest) d = (if d < r then Some s else walk_rates rest (d - r))"

text \<open>
  The type \<open>int\<close> of the source has 32 bits. The value that a sum or a product has in that
  type, by the wrap-around of two's complement:
\<close>

definition wrap32 :: "int \<Rightarrow> int" where
  "wrap32 x = (x + 2 ^ 31) mod 2 ^ 32 - 2 ^ 31"

text \<open>
  A \<open>double\<close>: a finite number (\<open>Num 0\<close> is the zero of positive sign), the zero of negative
  sign, one of the two infinities, or no number.
\<close>

datatype double = Num real | NegZero | PosInf | NegInf | NaN

text \<open>The quotient of \<open>n\<close> by a positive \<open>d\<close>, rounded to the nearest integer, a tie to the
  even one.\<close>

definition round_even :: "int \<Rightarrow> int \<Rightarrow> int" where
  "round_even n d =
     (let q = n div d; r = n mod d in
      if 2 * r < d then q
      else if d < 2 * r then q + 1
      else if even q then q else q + 1)"

text \<open>
  The \<open>double\<close> nearest to the quotient of two positive integers \<open>a\<close> and \<open>b\<close>. The
  significand of a \<open>double\<close> has 53 bits: the exponent \<open>k\<close> with
  \<open>2\<^sup>5\<^sup>2 \<le> a \<cdot> 2\<^sup>k / b < 2\<^sup>5\<^sup>3\<close> is found from the bit lengths of \<open>a\<close> and \<open>b\<close>, the quotient
  scaled by it is rounded to an integer, a tie to the even one, and scaled back. The
  quotient of two converted 32-bit integers lies between \<open>2\<^sup>-\<^sup>3\<^sup>1\<close> and \<open>2\<^sup>3\<^sup>1\<close>, where
  neither overflow nor gradual underflow occurs.
\<close>

definition binade_shift :: "int \<Rightarrow> int \<Rightarrow> int" where
  "binade_shift a b =
     (let k = 53 - bitlen a + bitlen b in
      if b * 2 ^ nat (- k) * 2 ^ 53 \<le> a * 2 ^ nat k then k - 1 else k)"

definition nearest_double :: "int \<Rightarrow> int \<Rightarrow> real" where
  "nearest_double a b =
     (let k = binade_shift a b in
      real_of_int (round_even (a * 2 ^ nat k) (b * 2 ^ nat (- k))) * 2 ^ nat (- k) / 2 ^ nat k)"

text \<open>The division \<open>(double)a / (double)b\<close> of two integers of the type \<open>int\<close>. The
  conversion of either to \<open>double\<close> is exact.\<close>

definition div_double :: "int \<Rightarrow> int \<Rightarrow> double" where
  "div_double a b =
     (if b = 0 then (if a = 0 then NaN else if 0 < a then PosInf else NegInf)
      else if a = 0 then (if 0 < b then Num 0 else NegZero)
      else if (0 < a) = (0 < b) then Num (nearest_double \<bar>a\<bar> \<bar>b\<bar>)
      else Num (- nearest_double \<bar>a\<bar> \<bar>b\<bar>))"

text \<open>The summation loop of \<open>_GetAveragePacketSize\<close>; \<open>sum\<close> is an \<open>int\<close>.\<close>

function sum_sizes :: "int list \<Rightarrow> int list \<Rightarrow> int \<Rightarrow> nat \<Rightarrow> int \<Rightarrow> error + int" where
  "sum_sizes psize prate sizes i acc =
     (if int i < sizes then
        (case elem psize (int i) of
           Inl e \<Rightarrow> Inl e
         | Inr s \<Rightarrow>
             (case elem prate (int i) of
                Inl e \<Rightarrow> Inl e
              | Inr r \<Rightarrow> sum_sizes psize prate sizes (Suc i) (wrap32 (acc + wrap32 (s * r)))))
      else Inr acc)"
  by pat_completeness auto
termination
  by (relation "measure (\<lambda>(psize, prate, sizes, i, acc). nat (sizes - int i))") auto

declare sum_sizes.simps [simp del]

text \<open>\<open>_GetAveragePacketSize\<close>: the single size converted to \<open>double\<close>, or the quotient
  \<open>(double)sum / (double)(_packet_size_max_val[cl] + 1)\<close>.\<close>

definition GetAveragePacketSize :: "'x state \<Rightarrow> int \<Rightarrow> error + double" where
  "GetAveragePacketSize st c =
     seq (elem (packet_size st) c) (\<lambda>psize.
       if int (length psize) = 1 then seq (elem psize 0) (\<lambda>s. Inr (Num (real_of_int s)))
       else
         seq (elem (packet_size_rate st) c) (\<lambda>prate.
         seq (sum_sizes psize prate (int (length psize)) 0 0) (\<lambda>acc.
         seq (elem (packet_size_max_val st) c) (\<lambda>max_val.
           Inr (div_double acc (wrap32 (max_val + 1)))))))"

section \<open>Retirement\<close>

text \<open>
  \<open>_RetirePacket\<close>. The watch branch only prints and is left out. \<open>AddSample\<close>
  appends the sample to the collector.
\<close>

definition AddSample :: "int list \<Rightarrow> int \<Rightarrow> int list" where
  "AddSample samples v = samples @ [v]"

definition RetirePacket ::
  "'x collab \<Rightarrow> 'x state \<Rightarrow> flit \<Rightarrow> flit \<Rightarrow> int \<Rightarrow> error + 'x state" where
  "RetirePacket E st head tail dst =
     seq (elem (reply_class st) (cl tail)) (\<lambda>reply.
     seq (assert (reply < int (classes st))) (\<lambda>_.
       if reply < 0 then
         seq (elem (request_class st) (cl tail)) (\<lambda>request.
         seq (assert (request < int (classes st))) (\<lambda>_.
         seq (if request < 0
              then add2 (requests_outstanding st) (cl tail) (src tail) (- 1)
              else add2 (requests_outstanding st) request dst (- 1)) (\<lambda>ro.
           if sim_state st = warming_up \<or> record_flag tail then
             (let c = (if request < 0 then cl tail else request) in
              seq (elem (tlat_stats st) c) (\<lambda>ts.
              seq (put (tlat_stats st) c (AddSample ts (atime tail - ttime tail))) (\<lambda>tls.
              seq (elem2 (pair_tlat st) c (dst * int (nodes st) + src tail)) (\<lambda>ps.
              seq (put2 (pair_tlat st) c (dst * int (nodes st) + src tail)
                     (AddSample ps (atime tail - ttime tail))) (\<lambda>pt.
                Inr (st\<lparr>requests_outstanding := ro, tlat_stats := tls, pair_tlat := pt\<rparr>))))))
           else Inr (st\<lparr>requests_outstanding := ro\<rparr>))))
       else
         seq (add2 (packet_seq_no st) (cl tail) dst 1) (\<lambda>sq.
         seq (GetNextPacketSize E (st\<lparr>packet_seq_no := sq\<rparr>) reply) (\<lambda>(size, x').
           Inr (GeneratePacket E
                  \<lparr>g_source = dest head, g_dest = src head, g_size = size, g_cl = reply,
                   g_time = atime tail + 1, g_tid = tid tail, g_ttime = ttime tail\<rparr>
                  (st\<lparr>packet_seq_no := sq, ext := x'\<rparr>))))))"

section \<open>Injection\<close>

text \<open>
  The loops of \<open>_Inject\<close> call \<open>_IssuePacket\<close>, which is free to change the members
  the loop conditions read; whether they end is therefore a property to prove, and not
  returning is the value \<open>None\<close>. The \<open>while\<close> loop also counts its iterations.
\<close>

partial_function (option) timer_loop ::
  "'x collab \<Rightarrow> nat \<Rightarrow> nat \<Rightarrow> nat \<Rightarrow> 'x state \<Rightarrow> (error + nat \<times> 'x state) option" where
  "timer_loop E c source n st =
     (case elem2 (qtime st) (int c) (int source) of
        Inl e \<Rightarrow> Some (Inl e)
      | Inr q \<Rightarrow>
          if q \<le> time st then
            (case put2 (qtime st) (int c) (int source) (q + 1) of
               Inl e \<Rightarrow> Some (Inl e)
             | Inr qt \<Rightarrow>
                 (case IssuePacket E (int source) (int c) (st\<lparr>qtime := qt\<rparr>) of
                    (issued, st1) \<Rightarrow>
                      if issued then
                        Some (seq (add2 (requests_outstanding st1) (int c) (int source) 1) (\<lambda>ro.
                              seq (add2 (packet_seq_no st1) (int c) (int source) 1) (\<lambda>sq.
                                Inr (Suc n, st1\<lparr>requests_outstanding := ro,
                                                 packet_seq_no := sq\<rparr>))))
                      else timer_loop E c source (Suc n) st1))
          else Some (Inr (n, st)))"

text \<open>The drain check that ends the body of the loops.\<close>

definition mark_drained :: "nat \<Rightarrow> nat \<Rightarrow> 'x state \<Rightarrow> error + 'x state" where
  "mark_drained c source st =
     (if sim_state st = draining then
        seq (elem2 (qtime st) (int c) (int source)) (\<lambda>q.
          if q > drain_time st then
            seq (put2 (qdrained st) (int c) (int source) True) (\<lambda>qd.
              Inr (st\<lparr>qdrained := qd\<rparr>))
          else Inr st)
      else Inr st)"

text \<open>The body of the two \<open>for\<close> loops of \<open>_Inject\<close>, for one class and source.\<close>

definition inject_pair :: "'x collab \<Rightarrow> nat \<Rightarrow> nat \<Rightarrow> 'x state \<Rightarrow> (error + 'x state) option" where
  "inject_pair E c source st =
     (case elem2 (partial_packets st) (int c) (int source) of
        Inl e \<Rightarrow> Some (Inl e)
      | Inr pp \<Rightarrow>
          if pp = [] then
            (case elem (request_class st) (int c) of
               Inl e \<Rightarrow> Some (Inl e)
             | Inr request \<Rightarrow>
                 if request \<ge> 0 then
                   Some (seq (put2 (qtime st) (int c) (int source) (time st)) (\<lambda>qt.
                           mark_drained c source (st\<lparr>qtime := qt\<rparr>)))
                 else
                   (case timer_loop E c source 0 st of
                      None \<Rightarrow> None
                    | Some (Inl e) \<Rightarrow> Some (Inl e)
                    | Some (Inr (n, st1)) \<Rightarrow> Some (mark_drained c source st1)))
          else Some (Inr st))"

text \<open>A counting \<open>for\<close> loop whose bound is read from the state at every iteration.\<close>

partial_function (option) for_loop ::
  "('s \<Rightarrow> nat) \<Rightarrow> (nat \<Rightarrow> 's \<Rightarrow> (error + 's) option) \<Rightarrow> nat \<Rightarrow> 's \<Rightarrow> (error + 's) option" where
  "for_loop bound body i st =
     (if i < bound st then
        (case body i st of
           None \<Rightarrow> None
         | Some (Inl e) \<Rightarrow> Some (Inl e)
         | Some (Inr st') \<Rightarrow> for_loop bound body (Suc i) st')
      else Some (Inr st))"

definition Inject :: "'x collab \<Rightarrow> 'x state \<Rightarrow> (error + 'x state) option" where
  "Inject E st =
     for_loop classes (\<lambda>c. for_loop nodes (\<lambda>source. inject_pair E c source) 0) 0 st"

section \<open>Drain detection and the phase lifecycle\<close>

text \<open>The inner loop of \<open>_PacketsOutstanding\<close>: is some source of class \<open>c\<close> not
  drained?\<close>

fun undrained_source :: "bool list list \<Rightarrow> nat \<Rightarrow> nat list \<Rightarrow> error + bool" where
  "undrained_source qd c [] = Inr False"
| "undrained_source qd c (s # ss) =
     (case elem2 qd (int c) (int s) of
        Inl e \<Rightarrow> Inl e
      | Inr d \<Rightarrow> if \<not> d then Inr True else undrained_source qd c ss)"

fun outstanding_loop :: "'x state \<Rightarrow> nat list \<Rightarrow> error + bool" where
  "outstanding_loop st [] = Inr False"
| "outstanding_loop st (c # cs) =
     (case elem (measure_stats st) (int c) of
        Inl e \<Rightarrow> Inl e
      | Inr m \<Rightarrow>
          if m \<noteq> 0 then
            (case elem (measured_in_flight_flits st) (int c) of
               Inl e \<Rightarrow> Inl e
             | Inr fl \<Rightarrow>
                 if fl = [] then
                   (case undrained_source (qdrained st) c [0..<nodes st] of
                      Inl e \<Rightarrow> Inl e
                    | Inr u \<Rightarrow> if u then Inr True else outstanding_loop st cs)
                 else Inl AssertionFailed)
          else outstanding_loop st cs)"

definition PacketsOutstanding :: "'x collab \<Rightarrow> 'x state \<Rightarrow> error + bool" where
  "PacketsOutstanding E st =
     (if base_PacketsOutstanding E st then Inr True
      else outstanding_loop st [0..<classes st])"

fun reset_loop :: "'x collab \<Rightarrow> nat list \<Rightarrow> 'x state \<Rightarrow> error + 'x state" where
  "reset_loop E [] st = Inr st"
| "reset_loop E (c # cs) st =
     (case put (qtime st) (int c) (replicate (nodes st) 0) of
        Inl e \<Rightarrow> Inl e
      | Inr qt \<Rightarrow>
          (case put (qdrained st) (int c) (replicate (nodes st) False) of
             Inl e \<Rightarrow> Inl e
           | Inr qd \<Rightarrow>
               reset_loop E cs
                 (st\<lparr>qtime := qt, qdrained := qd, ext := pattern_reset E (int c) (ext st)\<rparr>)))"

definition ResetSim :: "'x collab \<Rightarrow> 'x state \<Rightarrow> error + 'x state" where
  "ResetSim E st = (let st1 = base_ResetSim E st in reset_loop E [0..<classes st1] st1)"

section \<open>Statistics\<close>

fun clear_pair_loop ::
  "int list list list \<Rightarrow> nat \<Rightarrow> nat \<Rightarrow> (nat \<times> nat) list \<Rightarrow> error + int list list list" where
  "clear_pair_loop pt c n [] = Inr pt"
| "clear_pair_loop pt c n ((i, j) # ijs) =
     (case put2 pt (int c) (int i * int n + int j) [] of
        Inl e \<Rightarrow> Inl e
      | Inr pt' \<Rightarrow> clear_pair_loop pt' c n ijs)"

fun clear_loop :: "nat list \<Rightarrow> 'x state \<Rightarrow> error + 'x state" where
  "clear_loop [] st = Inr st"
| "clear_loop (c # cs) st =
     (case put (tlat_stats st) (int c) [] of
        Inl e \<Rightarrow> Inl e
      | Inr tls \<Rightarrow>
          (case clear_pair_loop (pair_tlat st) c (nodes st)
                  (List.product [0..<nodes st] [0..<nodes st]) of
             Inl e \<Rightarrow> Inl e
           | Inr pt \<Rightarrow> clear_loop cs (st\<lparr>tlat_stats := tls, pair_tlat := pt\<rparr>)))"

definition ClearStats :: "'x collab \<Rightarrow> 'x state \<Rightarrow> error + 'x state" where
  "ClearStats E st =
     seq (clear_loop [0..<classes st] st) (\<lambda>st1. Inr (base_ClearStats E st1))"

definition add_real :: "real list \<Rightarrow> int \<Rightarrow> real \<Rightarrow> error + real list" where
  "add_real v i d = seq (elem v i) (\<lambda>x. put v i (x + d))"

fun overall_loop :: "'x collab \<Rightarrow> nat list \<Rightarrow> 'x state \<Rightarrow> error + 'x state" where
  "overall_loop E [] st = Inr st"
| "overall_loop E (c # cs) st =
     (case elem (measure_stats st) (int c) of
        Inl e \<Rightarrow> Inl e
      | Inr m \<Rightarrow>
          if m = 0 then overall_loop E cs st
          else
            (case elem (tlat_stats st) (int c) of
               Inl e \<Rightarrow> Inl e
             | Inr ts \<Rightarrow>
                 if length ts > 0 then
                   (case add_real (overall_min_tlat st) (int c) (Stats_Min E ts) of
                      Inl e \<Rightarrow> Inl e
                    | Inr mn \<Rightarrow>
                        (case add_real (overall_avg_tlat st) (int c) (Stats_Average E ts) of
                           Inl e \<Rightarrow> Inl e
                         | Inr av \<Rightarrow>
                             (case add_real (overall_max_tlat st) (int c) (Stats_Max E ts) of
                                Inl e \<Rightarrow> Inl e
                              | Inr mx \<Rightarrow>
                                  overall_loop E cs
                                    (st\<lparr>overall_min_tlat := mn, overall_avg_tlat := av,
                                        overall_max_tlat := mx\<rparr>))))
                 else Inl AssertionFailed))"

definition UpdateOverallStats :: "'x collab \<Rightarrow> 'x state \<Rightarrow> error + 'x state" where
  "UpdateOverallStats E st =
     (let st1 = base_UpdateOverallStats E st in overall_loop E [0..<classes st1] st1)"

section \<open>The buffer of virtual channels\<close>

text \<open>
  \<open>Buffer\<close> holds the vector \<open>_vc\<close> of its virtual channels. The class \<open>VC\<close> is not part of
  the source: a virtual channel is a value of any type, and its constructor and the four
  operations that the buffer forwards to it are parameters. An operation of a virtual
  channel may fail, and the two that change it return it changed. A \<open>Flit *\<close> may be null.
\<close>

record 'v vc_class =
  VC_new :: "nat \<Rightarrow> 'v"
  VC_AddFlit :: "flit option \<Rightarrow> 'v \<Rightarrow> error + bool \<times> 'v"
  VC_RemoveFlit :: "'v \<Rightarrow> error + flit option \<times> 'v"
  VC_Empty :: "'v \<Rightarrow> error + bool"
  VC_Full :: "'v \<Rightarrow> error + bool"

record 'v buffer =
  b_vc :: "'v list"

text \<open>The constructor: \<open>_vc.resize(num_vcs)\<close>, then one new virtual channel per index.
  A negative \<open>num_vcs\<close> converts to a size that \<open>resize\<close> refuses with an exception, for
  which \<open>None\<close> stands.\<close>

definition Buffer_new :: "'v vc_class \<Rightarrow> int \<Rightarrow> 'v buffer option" where
  "Buffer_new V num_vcs =
     (if num_vcs < 0 then None
      else Some \<lparr>b_vc = map (VC_new V) [0..<nat num_vcs]\<rparr>)"

text \<open>The four operations that take an index. Each is \<open>_vc[vc]->\<close> followed by the
  operation of the same name, with no check of the index.\<close>

definition Buffer_AddFlit ::
  "'v vc_class \<Rightarrow> 'v buffer \<Rightarrow> int \<Rightarrow> flit option \<Rightarrow> error + bool \<times> 'v buffer" where
  "Buffer_AddFlit V b i f =
     seq (elem (b_vc b) i) (\<lambda>v.
     seq (VC_AddFlit V f v) (\<lambda>(r, v').
       Inr (r, b\<lparr>b_vc := (b_vc b)[nat i := v']\<rparr>)))"

definition Buffer_RemoveFlit ::
  "'v vc_class \<Rightarrow> 'v buffer \<Rightarrow> int \<Rightarrow> error + flit option \<times> 'v buffer" where
  "Buffer_RemoveFlit V b i =
     seq (elem (b_vc b) i) (\<lambda>v.
     seq (VC_RemoveFlit V v) (\<lambda>(f, v').
       Inr (f, b\<lparr>b_vc := (b_vc b)[nat i := v']\<rparr>)))"

definition Buffer_Empty :: "'v vc_class \<Rightarrow> 'v buffer \<Rightarrow> int \<Rightarrow> error + bool" where
  "Buffer_Empty V b i = seq (elem (b_vc b) i) (VC_Empty V)"

definition Buffer_Full :: "'v vc_class \<Rightarrow> 'v buffer \<Rightarrow> int \<Rightarrow> error + bool" where
  "Buffer_Full V b i = seq (elem (b_vc b) i) (VC_Full V)"

section \<open>Invariants of the construction and contracts of the collaborators\<close>

text \<open>What the constructor establishes for the size tables: one rate per size, and
  \<open>_packet_size_max_val\<close> one less than the sum of the class's rates.\<close>

definition sizes_ok :: "nat \<Rightarrow> int list list \<Rightarrow> int list list \<Rightarrow> int list \<Rightarrow> bool" where
  "sizes_ok n ps pr mv \<longleftrightarrow>
     length ps = n \<and> length pr = n \<and> length mv = n \<and>
     (\<forall>c<n. length (pr ! c) = length (ps ! c) \<and> mv ! c = sum_list (pr ! c) - 1)"

definition sizes_inv :: "'x state \<Rightarrow> bool" where
  "sizes_inv st \<longleftrightarrow>
     sizes_ok (classes st) (packet_size st) (packet_size_rate st) (packet_size_max_val st)"

text \<open>The expected packet size of a class as the specification words it: the sum of size
  times rate over the sum of the rates.\<close>

definition expectation :: "'x state \<Rightarrow> nat \<Rightarrow> real" where
  "expectation st c =
     real_of_int (\<Sum>(s, r)\<leftarrow>zip (packet_size st ! c) (packet_size_rate st ! c). s * r)
       / real_of_int (sum_list (packet_size_rate st ! c))"

text \<open>The finite numbers of the type \<open>double\<close>: a significand of at most 53 bits times a
  power of two, the exponent between -1074 and 971.\<close>

definition is_double :: "real \<Rightarrow> bool" where
  "is_double x \<longleftrightarrow>
     (\<exists>m j. \<bar>m\<bar> < 2 ^ 53 \<and>
        (j \<le> 1074 \<and> x = real_of_int m / 2 ^ j \<or> j \<le> 971 \<and> x = real_of_int m * 2 ^ j))"

text \<open>The vectors as the constructors size them: one row per class, one entry per node
  (per pair of nodes for the pair collectors).\<close>

definition matrix :: "nat \<Rightarrow> nat \<Rightarrow> 'a list list \<Rightarrow> bool" where
  "matrix n m rows \<longleftrightarrow> length rows = n \<and> (\<forall>row\<in>set rows. length row = m)"

definition shape :: "'x state \<Rightarrow> bool" where
  "shape st \<longleftrightarrow>
     length (reply_class st) = classes st \<and>
     length (request_class st) = classes st \<and>
     matrix (classes st) (nodes st) (requests_outstanding st) \<and>
     matrix (classes st) (nodes st) (packet_seq_no st) \<and>
     matrix (classes st) (nodes st) (partial_packets st) \<and>
     matrix (classes st) (nodes st) (qtime st) \<and>
     matrix (classes st) (nodes st) (qdrained st) \<and>
     length (measure_stats st) = classes st \<and>
     length (measured_in_flight_flits st) = classes st \<and>
     length (tlat_stats st) = classes st \<and>
     matrix (classes st) (nodes st * nodes st) (pair_tlat st)"

text \<open>What the constructor establishes for the class tables: every entry is below the
  number of classes, and \<open>_request_class\<close> inverts \<open>_reply_class\<close>.\<close>

definition classes_inv :: "'x state \<Rightarrow> bool" where
  "classes_inv st \<longleftrightarrow>
     length (reply_class st) = classes st \<and>
     length (request_class st) = classes st \<and>
     (\<forall>c<classes st.
        reply_class st ! c < int (classes st) \<and>
        request_class st ! c < int (classes st) \<and>
        (0 \<le> reply_class st ! c \<longrightarrow> request_class st ! nat (reply_class st ! c) = int c) \<and>
        (0 \<le> request_class st ! c \<longrightarrow> reply_class st ! nat (request_class st ! c) = int c))"

text \<open>The members \<open>_GeneratePacket\<close> leaves alone: the counters and the collectors.\<close>

definition generate_frame :: "'x collab \<Rightarrow> bool" where
  "generate_frame E \<longleftrightarrow>
     (\<forall>p st. requests_outstanding (GeneratePacket E p st) = requests_outstanding st \<and>
             packet_seq_no (GeneratePacket E p st) = packet_seq_no st \<and>
             tlat_stats (GeneratePacket E p st) = tlat_stats st \<and>
             pair_tlat (GeneratePacket E p st) = pair_tlat st \<and>
             qtime (GeneratePacket E p st) = qtime st \<and>
             qdrained (GeneratePacket E p st) = qdrained st)"

text \<open>The part of \<open>shape\<close> that \<open>_Inject\<close> relies on.\<close>

definition queues_shape :: "'x state \<Rightarrow> bool" where
  "queues_shape st \<longleftrightarrow>
     length (request_class st) = classes st \<and>
     matrix (classes st) (nodes st) (requests_outstanding st) \<and>
     matrix (classes st) (nodes st) (packet_seq_no st) \<and>
     matrix (classes st) (nodes st) (partial_packets st) \<and>
     matrix (classes st) (nodes st) (qtime st) \<and>
     matrix (classes st) (nodes st) (qdrained st)"

definition upd2 :: "'a list list \<Rightarrow> nat \<Rightarrow> nat \<Rightarrow> 'a \<Rightarrow> 'a list list" where
  "upd2 m i j x = m[i := (m ! i)[j := x]]"

text \<open>
  What \<open>_IssuePacket(source, c)\<close> leaves alone: the dimensions, the clock and the phase,
  the class table, the counters and the queue state. Of the partial packets it changes at
  most the list of its own class and source.
\<close>

definition issue_frame :: "'x collab \<Rightarrow> bool" where
  "issue_frame E \<longleftrightarrow>
     (\<forall>source c st.
        classes (snd (IssuePacket E source c st)) = classes st \<and>
        nodes (snd (IssuePacket E source c st)) = nodes st \<and>
        time (snd (IssuePacket E source c st)) = time st \<and>
        drain_time (snd (IssuePacket E source c st)) = drain_time st \<and>
        sim_state (snd (IssuePacket E source c st)) = sim_state st \<and>
        request_class (snd (IssuePacket E source c st)) = request_class st \<and>
        requests_outstanding (snd (IssuePacket E source c st)) = requests_outstanding st \<and>
        packet_seq_no (snd (IssuePacket E source c st)) = packet_seq_no st \<and>
        qtime (snd (IssuePacket E source c st)) = qtime st \<and>
        qdrained (snd (IssuePacket E source c st)) = qdrained st \<and>
        (\<exists>l. partial_packets (snd (IssuePacket E source c st))
               = upd2 (partial_packets st) (nat c) (nat source) l))"

text \<open>
  The timer loop as the specification words it: the timer advances cycle by cycle, each
  advance is followed by one attempt to issue, and the first attempt that succeeds stops
  the advance and counts one outstanding transaction and one sequence number. The first
  component of the result is the number of advances made, out of at most \<open>m\<close>.
\<close>

definition attempt :: "'x collab \<Rightarrow> nat \<Rightarrow> nat \<Rightarrow> 'x state \<Rightarrow> bool \<times> 'x state" where
  "attempt E c s st =
     IssuePacket E (int s) (int c) (st\<lparr>qtime := upd2 (qtime st) c s (qtime st ! c ! s + 1)\<rparr>)"

definition count_issue :: "nat \<Rightarrow> nat \<Rightarrow> 'x state \<Rightarrow> 'x state" where
  "count_issue c s st =
     st\<lparr>requests_outstanding :=
          upd2 (requests_outstanding st) c s (requests_outstanding st ! c ! s + 1),
        packet_seq_no := upd2 (packet_seq_no st) c s (packet_seq_no st ! c ! s + 1)\<rparr>"

fun advance :: "'x collab \<Rightarrow> nat \<Rightarrow> nat \<Rightarrow> nat \<Rightarrow> 'x state \<Rightarrow> nat \<times> 'x state" where
  "advance E c s 0 st = (0, st)"
| "advance E c s (Suc m) st =
     (case attempt E c s st of
        (ok, st1) \<Rightarrow>
          if ok then (1, count_issue c s st1)
          else (case advance E c s m st1 of (n, st') \<Rightarrow> (Suc n, st')))"

text \<open>
  The state of one class and source, and what one call of \<open>_Inject\<close> does to it, as
  the specification words it. A pair whose list of partial packets is not empty is left
  alone. Otherwise the timer of a reply class is set to the current cycle; the timer of
  any other class advances, either past the current cycle with no packet issued, or to
  some cycle up to there with one packet issued and both counters one higher. The pair
  is marked drained when the simulation is draining and its timer is past the deadline.
\<close>

record slot =
  s_qtime :: int
  s_qdrained :: bool
  s_outstanding :: int
  s_seq_no :: int
  s_partial :: "flit list"

definition slot_of :: "'x state \<Rightarrow> nat \<Rightarrow> nat \<Rightarrow> slot" where
  "slot_of st c s =
     \<lparr>s_qtime = qtime st ! c ! s, s_qdrained = qdrained st ! c ! s,
      s_outstanding = requests_outstanding st ! c ! s,
      s_seq_no = packet_seq_no st ! c ! s, s_partial = partial_packets st ! c ! s\<rparr>"

definition pair_effect :: "'x state \<Rightarrow> nat \<Rightarrow> slot \<Rightarrow> slot \<Rightarrow> bool" where
  "pair_effect st c a b \<longleftrightarrow>
     (if s_partial a \<noteq> [] then
        s_qtime b = s_qtime a \<and> s_qdrained b = s_qdrained a \<and>
        s_outstanding b = s_outstanding a \<and> s_seq_no b = s_seq_no a
      else
        (if 0 \<le> request_class st ! c then
           s_qtime b = time st \<and> s_outstanding b = s_outstanding a \<and> s_seq_no b = s_seq_no a
         else
           s_qtime a \<le> s_qtime b \<and> s_qtime b \<le> max (s_qtime a) (time st + 1) \<and>
           (s_outstanding b = s_outstanding a \<and> s_seq_no b = s_seq_no a \<and>
              time st < s_qtime b \<or>
            s_outstanding b = s_outstanding a + 1 \<and> s_seq_no b = s_seq_no a + 1 \<and>
              s_qtime a < s_qtime b)) \<and>
        (s_qdrained b \<longleftrightarrow>
           s_qdrained a \<or> sim_state st = draining \<and> drain_time st < s_qtime b))"

text \<open>The body of the loops for one class and source, in the same words: nothing for a
  pair with partial packets; otherwise the timer is pinned or advanced, and then the pair
  is marked drained when the simulation is draining and the timer is past the deadline.\<close>

definition drain_mark :: "nat \<Rightarrow> nat \<Rightarrow> 'x state \<Rightarrow> 'x state" where
  "drain_mark c s st =
     (if sim_state st = draining \<and> drain_time st < qtime st ! c ! s
      then st\<lparr>qdrained := upd2 (qdrained st) c s True\<rparr> else st)"

definition pair_step :: "'x collab \<Rightarrow> nat \<Rightarrow> nat \<Rightarrow> 'x state \<Rightarrow> 'x state" where
  "pair_step E c s st =
     (if partial_packets st ! c ! s \<noteq> [] then st
      else drain_mark c s
             (if 0 \<le> request_class st ! c
              then st\<lparr>qtime := upd2 (qtime st) c s (time st)\<rparr>
              else snd (advance E c s (nat (time st + 1 - qtime st ! c ! s)) st)))"

text \<open>The whole call in the same words: the step of every class, in order, for every
  source, in order.\<close>

definition inject_steps :: "'x collab \<Rightarrow> 'x state \<Rightarrow> 'x state" where
  "inject_steps E st =
     fold (\<lambda>c. fold (\<lambda>s. pair_step E c s) [0..<nodes st]) [0..<classes st] st"

text \<open>The members no call of \<open>_Inject\<close> changes.\<close>

definition same_globals :: "'x state \<Rightarrow> 'x state \<Rightarrow> bool" where
  "same_globals st st' \<longleftrightarrow>
     classes st' = classes st \<and> nodes st' = nodes st \<and> time st' = time st \<and>
     drain_time st' = drain_time st \<and> sim_state st' = sim_state st \<and>
     request_class st' = request_class st"

text \<open>The operations of the engine that change its state, \<open>_ResetSim\<close> apart, and a
  run of them in any order.\<close>

datatype op = Inject_op | RetirePacket_op flit flit int | ClearStats_op | UpdateOverallStats_op

definition step :: "'x collab \<Rightarrow> op \<Rightarrow> 'x state \<Rightarrow> (error + 'x state) option" where
  "step E p st =
     (case p of
        Inject_op \<Rightarrow> Inject E st
      | RetirePacket_op head tail dst \<Rightarrow> Some (RetirePacket E st head tail dst)
      | ClearStats_op \<Rightarrow> Some (ClearStats E st)
      | UpdateOverallStats_op \<Rightarrow> Some (UpdateOverallStats E st))"

fun run :: "'x collab \<Rightarrow> op list \<Rightarrow> 'x state \<Rightarrow> (error + 'x state) option" where
  "run E [] st = Some (Inr st)"
| "run E (p # ps) st =
     (case step E p st of
        None \<Rightarrow> None
      | Some (Inl e) \<Rightarrow> Some (Inl e)
      | Some (Inr st') \<Rightarrow> run E ps st')"

text \<open>The drained flags of the collaborators' concern: none of them touches
  \<open>_qdrained\<close>.\<close>

definition keeps_qdrained :: "'x collab \<Rightarrow> bool" where
  "keeps_qdrained E \<longleftrightarrow>
     (\<forall>st. (\<forall>source c. qdrained (snd (IssuePacket E source c st)) = qdrained st) \<and>
           (\<forall>p. qdrained (GeneratePacket E p st) = qdrained st) \<and>
           qdrained (base_ClearStats E st) = qdrained st \<and>
           qdrained (base_UpdateOverallStats E st) = qdrained st)"

text \<open>Every flag that is set in the first state is set in the second.\<close>

definition drained_le :: "'x state \<Rightarrow> 'x state \<Rightarrow> bool" where
  "drained_le st st' \<longleftrightarrow>
     (\<forall>c s. elem2 (qdrained st) c s = Inr True \<longrightarrow> elem2 (qdrained st') c s = Inr True)"

text \<open>The state after the reset, as the specification words it: the base engine's reset,
  then every timer at zero, every flag false and the traffic pattern of every class
  reset.\<close>

definition reset_queues :: "'x collab \<Rightarrow> 'x state \<Rightarrow> 'x state" where
  "reset_queues E b =
     b\<lparr>qtime := replicate (classes b) (replicate (nodes b) 0),
        qdrained := replicate (classes b) (replicate (nodes b) False),
        ext := fold (\<lambda>c. pattern_reset E (int c)) [0..<classes b] (ext b)\<rparr>"

text \<open>What the base engine's \<open>_PacketsOutstanding\<close> reports: when it returns false,
  no measured class has a flit in flight.\<close>

definition base_reports_in_flight :: "'x collab \<Rightarrow> 'x state \<Rightarrow> bool" where
  "base_reports_in_flight E st \<longleftrightarrow>
     base_PacketsOutstanding E st \<or>
     (\<forall>c<classes st. measure_stats st ! c \<noteq> 0 \<longrightarrow> measured_in_flight_flits st ! c = [])"

text \<open>The contract of the random source: \<open>RandomInt(max)\<close> is an integer in
  \<open>[0, max]\<close>.\<close>

definition random_in_range :: "'x collab \<Rightarrow> bool" where
  "random_in_range E \<longleftrightarrow>
     (\<forall>m x. 0 \<le> m \<longrightarrow> 0 \<le> fst (RandomInt E m x) \<and> fst (RandomInt E m x) \<le> m)"

section \<open>A simulated trial\<close>

text \<open>
  Modelled from the spec: the base engine's cycle, the network, \<open>_GeneratePacket\<close> and
  the subclass's \<open>_IssuePacket\<close> are not part of the source. Of a trial the model keeps
  what the outstanding counters depend on. A packet that \<open>_GeneratePacket\<close> creates
  is in the pool until its tail retires at its destination. \<open>_IssuePacket\<close> asks the
  injection process and the traffic pattern, whose answers (inject or not, the
  destination, the size) are scripted in advance, and generates a packet of the asked
  class from the asked source. The random source returns the scripted draws.
\<close>

record trial_ext =
  pool :: "packet_request list"
  script :: "(bool \<times> int \<times> int) list"
  draws :: "int list"

definition trial_generate :: "packet_request \<Rightarrow> trial_ext state \<Rightarrow> trial_ext state" where
  "trial_generate p st = st\<lparr>ext := (ext st)\<lparr>pool := pool (ext st) @ [p]\<rparr>\<rparr>"

definition trial_issue :: "int \<Rightarrow> int \<Rightarrow> trial_ext state \<Rightarrow> bool \<times> trial_ext state" where
  "trial_issue source c st =
     (case script (ext st) of
        [] \<Rightarrow> (False, st)
      | (go, d, sz) # rest \<Rightarrow>
          if go then
            (True, trial_generate
                     \<lparr>g_source = source, g_dest = d, g_size = sz, g_cl = c,
                      g_time = time st, g_tid = - 1, g_ttime = - 1\<rparr>
                     (st\<lparr>ext := (ext st)\<lparr>script := rest\<rparr>\<rparr>))
          else (False, st\<lparr>ext := (ext st)\<lparr>script := rest\<rparr>\<rparr>))"

definition trial_random :: "int \<Rightarrow> trial_ext \<Rightarrow> int \<times> trial_ext" where
  "trial_random m x = (case draws x of [] \<Rightarrow> (0, x) | d # ds \<Rightarrow> (d, x\<lparr>draws := ds\<rparr>))"

definition trial_collab :: "trial_ext collab" where
  "trial_collab =
     \<lparr>RandomInt = trial_random,
      IssuePacket = trial_issue,
      GeneratePacket = trial_generate,
      base_PacketsOutstanding = (\<lambda>st. pool (ext st) \<noteq> []),
      base_ResetSim = (\<lambda>st. st),
      base_ClearStats = (\<lambda>st. st),
      base_UpdateOverallStats = (\<lambda>st. st),
      pattern_reset = (\<lambda>c x. x),
      Stats_Min = (\<lambda>xs. 0), Stats_Average = (\<lambda>xs. 0), Stats_Max = (\<lambda>xs. 0)\<rparr>"

text \<open>Modelled from the spec: the network, which is not part of the source, delivers a
  packet as generated: the head and the tail of a packet in the pool carry its class,
  source and destination.\<close>

definition delivered :: "packet_request \<Rightarrow> flit \<Rightarrow> flit \<Rightarrow> bool" where
  "delivered p head tail \<longleftrightarrow>
     cl tail = g_cl p \<and> src tail = g_source p \<and> dest tail = g_dest p \<and>
     cl head = g_cl p \<and> src head = g_source p \<and> dest head = g_dest p"

text \<open>
  Modelled from the spec: the cycle of the base engine, which is not part of the source.
  The states a trial reaches from a start state: by a call of \<open>_Inject\<close>; by the
  retirement of a packet of the pool at its destination; and by the base engine, which
  moves the clock and the phase, fills and empties the partial-packet lists, and is
  given new scripts.
\<close>

inductive_set reachable :: "trial_ext state \<Rightarrow> trial_ext state set"
  for st0 :: "trial_ext state" where
  start: "st0 \<in> reachable st0"
| inject: "st \<in> reachable st0 \<Longrightarrow> Inject trial_collab st = Some (Inr st')
           \<Longrightarrow> st' \<in> reachable st0"
| retire: "st \<in> reachable st0 \<Longrightarrow> p \<in> set (pool (ext st)) \<Longrightarrow> delivered p head tail
           \<Longrightarrow> RetirePacket trial_collab
                 (st\<lparr>ext := (ext st)\<lparr>pool := remove1 p (pool (ext st))\<rparr>\<rparr>)
                 head tail (g_dest p) = Inr st'
           \<Longrightarrow> st' \<in> reachable st0"
| engine: "st \<in> reachable st0 \<Longrightarrow> matrix (classes st) (nodes st) pp
           \<Longrightarrow> st\<lparr>time := t, drain_time := dt, sim_state := ph, partial_packets := pp,
                  ext := (ext st)\<lparr>script := sc, draws := dr\<rparr>\<rparr> \<in> reachable st0"

text \<open>A trial starts from a state as the constructors leave it: the vectors sized by the
  numbers of classes and nodes, \<open>_request_class\<close> as the constructor's loop computes it
  from \<open>_reply_class\<close>, no packet in the pool and every outstanding counter at zero.\<close>

definition trial_start :: "trial_ext state \<Rightarrow> bool" where
  "trial_start st \<longleftrightarrow>
     shape st \<and>
     init_request_class (classes st) (reply_class st) = Inr (request_class st) \<and>
     pool (ext st) = [] \<and>
     (\<forall>c<classes st. \<forall>s<nodes st. requests_outstanding st ! c ! s = 0)"

text \<open>No reply class has a reply class of its own.\<close>

definition chain_free :: "'x state \<Rightarrow> bool" where
  "chain_free st \<longleftrightarrow>
     (\<forall>c<classes st. 0 \<le> reply_class st ! c \<longrightarrow> reply_class st ! nat (reply_class st ! c) < 0)"

text \<open>The class and node whose counter a packet in the pool is counted in: for a reply,
  the request class at the reply's destination; for any other packet, its own class at
  its source.\<close>

definition owner :: "'x state \<Rightarrow> packet_request \<Rightarrow> int \<times> int" where
  "owner st p =
     (if 0 \<le> request_class st ! nat (g_cl p) \<and> reply_class st ! nat (g_cl p) < 0
      then (request_class st ! nat (g_cl p), g_dest p)
      else (g_cl p, g_source p))"

definition owned :: "trial_ext state \<Rightarrow> nat \<Rightarrow> nat \<Rightarrow> nat" where
  "owned st c s = length (filter (\<lambda>p. owner st p = (int c, int s)) (pool (ext st)))"

text \<open>The invariant of a trial: every packet of the pool has a class of the
  configuration, and every outstanding counter is the number of packets of the pool
  counted in it.\<close>

definition trial_inv :: "trial_ext state \<Rightarrow> bool" where
  "trial_inv st \<longleftrightarrow>
     shape st \<and> classes_inv st \<and> chain_free st \<and>
     (\<forall>p\<in>set (pool (ext st)). 0 \<le> g_cl p \<and> g_cl p < int (classes st)) \<and>
     (\<forall>c<classes st. \<forall>s<nodes st. requests_outstanding st ! c ! s = int (owned st c s))"

section \<open>Concrete instances\<close>

text \<open>A state with no classes and no nodes, and collaborators that draw from a counter,
  never issue, and change nothing; the instances below update them.\<close>

definition blank :: "int state" where
  "blank =
     \<lparr>classes = 0, nodes = 0, time = 0, drain_time = 0, sim_state = warming_up,
      requests_outstanding = [], packet_seq_no = [], partial_packets = [],
      measure_stats = [], measured_in_flight_flits = [], packet_size = [],
      packet_size_rate = [], packet_size_max_val = [], reply_class = [],
      request_class = [], qtime = [], qdrained = [], tlat_stats = [], pair_tlat = [],
      overall_min_tlat = [], overall_avg_tlat = [], overall_max_tlat = [], ext = 0\<rparr>"

definition quiet :: "int collab" where
  "quiet =
     \<lparr>RandomInt = (\<lambda>m x. (x mod (m + 1), x + 1)),
      IssuePacket = (\<lambda>source c st. (False, st)),
      GeneratePacket = (\<lambda>p st. st),
      base_PacketsOutstanding = (\<lambda>st. False),
      base_ResetSim = (\<lambda>st. st),
      base_ClearStats = (\<lambda>st. st),
      base_UpdateOverallStats = (\<lambda>st. st),
      pattern_reset = (\<lambda>c x. x),
      Stats_Min = (\<lambda>xs. 0), Stats_Average = (\<lambda>xs. 0), Stats_Max = (\<lambda>xs. 0)\<rparr>"

text \<open>Collaborators that issue a packet at every attempt.\<close>

definition eager :: "int collab" where
  "eager =
     quiet\<lparr>IssuePacket := (\<lambda>source c st.
        (True, st\<lparr>partial_packets :=
                    upd2 (partial_packets st) (nat c) (nat source)
                      [\<lparr>cl = c, src = source, dest = 0, ttime = time st, atime = 0, tid = 0,
                        watch = False, record_flag = False\<rparr>]\<rparr>))\<rparr>"

text \<open>Two nodes and two classes, class 0 a request class whose replies are of class 1,
  with empty collectors and counters at zero.\<close>

definition two_nodes :: "int state" where
  "two_nodes =
     blank\<lparr>classes := 2, nodes := 2,
           requests_outstanding := [[0, 0], [0, 0]], packet_seq_no := [[0, 0], [0, 0]],
           partial_packets := [[[], []], [[], []]],
           measure_stats := [1, 1], measured_in_flight_flits := [[], []],
           packet_size := [[1], [1]], packet_size_rate := [[1], [1]],
           packet_size_max_val := [0, 0],
           reply_class := [1, - 1], request_class := [- 1, 0],
           qtime := [[0, 0], [0, 0]], qdrained := [[False, False], [False, False]],
           tlat_stats := [[], []], pair_tlat := [[[], [], [], []], [[], [], [], []]],
           overall_min_tlat := [0, 0], overall_avg_tlat := [0, 0],
           overall_max_tlat := [0, 0]\<rparr>"

definition a_flit :: flit where
  "a_flit = \<lparr>cl = 0, src = 0, dest = 1, ttime = 3, atime = 10, tid = 7,
             watch = False, record_flag = False\<rparr>"

text \<open>The same two nodes in the draining phase, at cycle 2 with the deadline 1; one pair
  is drained already.\<close>

definition draining_nodes :: "int state" where
  "draining_nodes =
     two_nodes\<lparr>time := 2, drain_time := 1, sim_state := draining,
               qdrained := [[True, False], [False, False]]\<rparr>"

text \<open>
  Two nodes and three classes in a chain: replies to class 0 are of class 1, and
  replies to class 1 are of class 2. The script issues one packet, from node 0 to
  node 1.
\<close>

definition chain3 :: "trial_ext state" where
  "chain3 =
     \<lparr>classes = 3, nodes = 2, time = 0, drain_time = 0, sim_state = running,
      requests_outstanding = [[0, 0], [0, 0], [0, 0]],
      packet_seq_no = [[0, 0], [0, 0], [0, 0]],
      partial_packets = [[[], []], [[], []], [[], []]],
      measure_stats = [1, 1, 1], measured_in_flight_flits = [[], [], []],
      packet_size = [[1], [1], [1]], packet_size_rate = [[1], [1], [1]],
      packet_size_max_val = [0, 0, 0],
      reply_class = [1, 2, - 1], request_class = [- 1, 0, 1],
      qtime = [[0, 0], [0, 0], [0, 0]],
      qdrained = [[False, False], [False, False], [False, False]],
      tlat_stats = [[], [], []],
      pair_tlat = [[[], [], [], []], [[], [], [], []], [[], [], [], []]],
      overall_min_tlat = [0, 0, 0], overall_avg_tlat = [0, 0, 0],
      overall_max_tlat = [0, 0, 0],
      ext = \<lparr>pool = [], script = [(True, 1, 1)], draws = []\<rparr>\<rparr>"

text \<open>The state of that trial after the one packet issued from node 0 to node 1 in
  class 0, its reply of class 1 and the reply of class 2 to that reply have all
  retired.\<close>

definition chain3_end :: "trial_ext state" where
  "chain3_end =
     chain3\<lparr>requests_outstanding := [[1, 0], [0, - 1], [0, 0]],
            packet_seq_no := [[1, 1], [1, 0], [0, 0]],
            qtime := [[1, 1], [0, 0], [0, 0]],
            ext := \<lparr>pool = [], script = [], draws = []\<rparr>\<rparr>"

text \<open>The same without the third class: replies to class 0 are of class 1.\<close>

definition pair2 :: "trial_ext state" where
  "pair2 =
     \<lparr>classes = 2, nodes = 2, time = 0, drain_time = 0, sim_state = running,
      requests_outstanding = [[0, 0], [0, 0]],
      packet_seq_no = [[0, 0], [0, 0]],
      partial_packets = [[[], []], [[], []]],
      measure_stats = [1, 1], measured_in_flight_flits = [[], []],
      packet_size = [[1], [1]], packet_size_rate = [[1], [1]],
      packet_size_max_val = [0, 0],
      reply_class = [1, - 1], request_class = [- 1, 0],
      qtime = [[0, 0], [0, 0]],
      qdrained = [[False, False], [False, False]],
      tlat_stats = [[], []],
      pair_tlat = [[[], [], [], []], [[], [], [], []]],
      overall_min_tlat = [0, 0], overall_avg_tlat = [0, 0],
      overall_max_tlat = [0, 0],
      ext = \<lparr>pool = [], script = [(True, 1, 1)], draws = []\<rparr>\<rparr>"

text \<open>One class with the sizes 64 and 512 at the rates 1 and 3, as the constructor
  builds it; the next draw of the random source is 2.\<close>

definition two_sizes :: "int state" where
  "two_sizes =
     blank\<lparr>classes := 1, packet_size := [[64, 512]], packet_size_rate := [[1, 3]],
           packet_size_max_val := [3], ext := 2\<rparr>"

text \<open>One class with the sizes 1 and 2 at the rates 1 and 2, and one with the sizes 100000
  and 1 at the rates 30000 and 1, as the constructor builds them.\<close>

definition one_two :: "int state" where
  "one_two =
     blank\<lparr>classes := 1, packet_size := [[1, 2]], packet_size_rate := [[1, 2]],
           packet_size_max_val := [2]\<rparr>"

definition large_sizes :: "int state" where
  "large_sizes =
     blank\<lparr>classes := 1, packet_size := [[100000, 1]], packet_size_rate := [[30000, 1]],
           packet_size_max_val := [30000]\<rparr>"

text \<open>Modelled from the spec: the class \<open>VC\<close> is not part of the source. A virtual channel as
  the specification describes it, a queue of flits in arrival order bounded by a depth,
  here 2; adding to a full channel is refused, and removing from an empty one gives no
  flit.\<close>

definition fifo_vc :: "flit list vc_class" where
  "fifo_vc =
     \<lparr>VC_new = (\<lambda>i. []),
      VC_AddFlit = (\<lambda>f v. case f of
                       None \<Rightarrow> Inl AssertionFailed
                     | Some x \<Rightarrow> if length v < 2 then Inr (True, v @ [x]) else Inr (False, v)),
      VC_RemoveFlit = (\<lambda>v. case v of [] \<Rightarrow> Inr (None, []) | x # xs \<Rightarrow> Inr (Some x, xs)),
      VC_Empty = (\<lambda>v. Inr (v = [])),
      VC_Full = (\<lambda>v. Inr (length v = 2))\<rparr>"

text \<open>A buffer of two such channels, as its constructor builds it.\<close>

definition two_vcs :: "flit list buffer" where
  "two_vcs = \<lparr>b_vc = [[], []]\<rparr>"

section \<open>Basic facts\<close>

lemma seq_simps [simp]: "seq (Inl e) f = Inl e" "seq (Inr x) f = f x"
  by (simp_all add: seq_def)

lemma assert_simps [simp]: "assert True = Inr ()" "assert False = Inl AssertionFailed"
  by (simp_all add: assert_def)

lemmas access_defs = elem_def put_def vback_def elem2_def put2_def add2_def

lemma check_rates_sum: "check_rates rs m = Inr m' \<Longrightarrow> m' = m + sum_list rs"
  by (induction rs arbitrary: m) (force split: if_splits)+

lemma scan_sizes_walk:
  assumes "length pr = length ps" "i < length ps" "pct < sum_list (drop i pr)"
  shows "\<exists>s. scan_sizes ps pr (int (length ps)) i pct = Inr s
             \<and> walk_rates (drop i (zip ps pr)) pct = Some s \<and> s \<in> set ps"
  using assms
proof (induction "length ps - i" arbitrary: i pct)
  case 0
  then show ?case by simp
next
  case (Suc k)
  show ?case
  proof (cases "Suc i < length ps")
    case True
    have dr: "drop i pr = pr ! i # drop (Suc i) pr" "drop i (zip ps pr) = (ps ! i, pr ! i) # drop (Suc i) (zip ps pr)"
      using Suc.prems by (simp_all add: drop_zip flip: Cons_nth_drop_Suc)
    show ?thesis
    proof (cases "pr ! i > pct")
      case gt: True
      then show ?thesis using True Suc.prems dr
        by (subst scan_sizes.simps) (simp add: access_defs)
    next
      case False
      have "k = length ps - Suc i" using Suc.hyps(2) by simp
      moreover have "pct - pr ! i < sum_list (drop (Suc i) pr)"
        using Suc.prems(3) dr by simp
      ultimately obtain s where "scan_sizes ps pr (int (length ps)) (Suc i) (pct - pr ! i) = Inr s"
        "walk_rates (drop (Suc i) (zip ps pr)) (pct - pr ! i) = Some s" "s \<in> set ps"
        using Suc.hyps(1)[of "Suc i" "pct - pr ! i"] Suc.prems(1) True by blast
      then show ?thesis using True False Suc.prems dr
        by (subst scan_sizes.simps) (simp add: access_defs)
    qed
  next
    case False
    then have i: "Suc i = length ps" using Suc.prems by simp
    have ne: "ps \<noteq> []" "pr \<noteq> []" using Suc.prems by auto
    have "last ps = ps ! i" "last pr = pr ! i"
      using i ne Suc.prems(1) by (simp_all add: last_conv_nth flip: i)
    then have dr: "drop i pr = [last pr]" "drop i (zip ps pr) = [(last ps, last pr)]"
      using Suc.prems i
      by (simp_all add: drop_zip flip: Cons_nth_drop_Suc)
    show ?thesis using Suc.prems i dr ne
      by (subst scan_sizes.simps) (simp add: access_defs)
  qed
qed

lemma round_even_near:
  assumes "0 < d"
  shows "\<bar>2 * (round_even n d * d - n)\<bar> \<le> d"
proof -
  have n: "n = (n div d) * d + n mod d" by simp
  have r: "0 \<le> n mod d" "n mod d < d" using assms by simp_all
  define q where "q = n div d"
  define r where "r = n mod d"
  have e: "n = q * d + r" "0 \<le> r" "r < d" using n r by (simp_all add: q_def r_def)
  have "round_even n d = q \<and> 2 * r \<le> d \<or> round_even n d = q + 1 \<and> d \<le> 2 * r"
    by (auto simp: round_even_def Let_def q_def r_def)
  then show ?thesis using e by (auto simp: algebra_simps)
qed

lemma power_window:
  fixes a b :: int
  assumes "2 ^ (la - 1) \<le> a" "a < 2 ^ la" "2 ^ (lb - 1) \<le> b" "b < 2 ^ lb"
    and "1 \<le> la" "1 \<le> lb" "k + la = lb + p + 1"
  shows "b * 2 ^ p < a * 2 ^ k" "a * 2 ^ k < b * 2 ^ (p + 2)"
proof -
  have "b * 2 ^ p < 2 ^ lb * 2 ^ p" using assms(4) by simp
  also have "\<dots> = (2::int) ^ (la - 1) * 2 ^ k"
  proof -
    have "lb + p = la - 1 + k" using assms(5,7) by simp
    then show ?thesis by (simp add: power_add[symmetric])
  qed
  also have "\<dots> \<le> a * 2 ^ k" using assms(1) by simp
  finally show "b * 2 ^ p < a * 2 ^ k" .
  have "a * 2 ^ k < 2 ^ la * 2 ^ k" using assms(2) by simp
  also have "\<dots> = (2::int) ^ (lb - 1) * 2 ^ (p + 2)"
  proof -
    have "la + k = lb - 1 + (p + 2)" using assms(6,7) by simp
    then show ?thesis by (simp only: power_add[symmetric])
  qed
  also have "\<dots> \<le> b * 2 ^ (p + 2)" using assms(3) by simp
  finally show "a * 2 ^ k < b * 2 ^ (p + 2)" .
qed

lemma binade_shift_bounds:
  assumes "0 < a" "0 < b" "a < b * 2 ^ 53"
  shows "0 \<le> binade_shift a b" "b * 2 ^ 52 \<le> a * 2 ^ nat (binade_shift a b)"
    "a * 2 ^ nat (binade_shift a b) < b * 2 ^ 53"
proof -
  define la where "la = nat (bitlen a)"
  define lb where "lb = nat (bitlen b)"
  have pa: "1 \<le> bitlen a" "1 \<le> bitlen b"
    using bitlen_eq_zero_iff[of a] bitlen_eq_zero_iff[of b] bitlen_nonneg[of a]
      bitlen_nonneg[of b] assms(1,2) by linarith+
  have na: "nat (bitlen a - 1) = la - 1" "nat (bitlen b - 1) = lb - 1"
    using pa by (simp_all add: la_def lb_def nat_diff_distrib)
  have la: "2 ^ (la - 1) \<le> a" "a < 2 ^ la" "1 \<le> la"
    using bitlen_bounds[OF assms(1)] pa(1) na(1) by (simp_all add: la_def)
  have lb: "2 ^ (lb - 1) \<le> b" "b < 2 ^ lb" "1 \<le> lb"
    using bitlen_bounds[OF assms(2)] pa(2) na(2) by (simp_all add: lb_def)
  have bl: "bitlen a = int la" "bitlen b = int lb"
    using bitlen_nonneg by (simp_all add: la_def lb_def)
  have "(2::int) ^ (la - 1) < 2 ^ (lb + 53)"
  proof -
    have "(2::int) ^ (la - 1) \<le> a" using la by simp
    also have "\<dots> < b * 2 ^ 53" using assms(3) .
    also have "\<dots> < 2 ^ lb * 2 ^ 53" using lb(2) by simp
    finally show ?thesis by (simp only: power_add)
  qed
  then have "la - 1 < lb + 53" by (simp only: power_strict_increasing_iff one_less_numeral_iff semiring_norm)
  then have k0: "la \<le> lb + 53" by simp
  define k0 where "k0 = lb + 53 - la"
  have k0i: "53 - bitlen a + bitlen b = int k0" using k0 by (simp add: bl k0_def)
  have eq: "k0 + la = lb + 52 + 1" using k0 by (simp add: k0_def)
  have low: "b * 2 ^ 52 < a * 2 ^ k0" and up0: "a * 2 ^ k0 < b * 2 ^ (52 + 2)"
    using power_window[OF la(1,2) lb(1,2) la(3) lb(3) eq] by blast+
  have up: "a * 2 ^ k0 < b * 2 ^ 54" using up0 by simp
  have sc: "binade_shift a b = (if b * 2 ^ 53 \<le> a * 2 ^ k0 then int k0 - 1 else int k0)"
    by (simp add: binade_shift_def k0i Let_def)
  show "0 \<le> binade_shift a b" "b * 2 ^ 52 \<le> a * 2 ^ nat (binade_shift a b)"
    "a * 2 ^ nat (binade_shift a b) < b * 2 ^ 53"
  proof -
    consider (hi) "b * 2 ^ 53 \<le> a * 2 ^ k0" | (lo) "a * 2 ^ k0 < b * 2 ^ 53" by linarith
    then have "0 \<le> binade_shift a b \<and> b * 2 ^ 52 \<le> a * 2 ^ nat (binade_shift a b) \<and>
               a * 2 ^ nat (binade_shift a b) < b * 2 ^ 53"
    proof cases
      case hi
      then have "k0 \<noteq> 0" using assms(3) by (cases k0) auto
      then obtain j where j: "k0 = Suc j" by (cases k0) auto
      have "binade_shift a b = int j" using hi sc j by simp
      then show ?thesis using hi up j by simp
    next
      case lo
      then have "binade_shift a b = int k0" using sc by simp
      then show ?thesis using lo low by simp
    qed
    then show "0 \<le> binade_shift a b" "b * 2 ^ 52 \<le> a * 2 ^ nat (binade_shift a b)"
      "a * 2 ^ nat (binade_shift a b) < b * 2 ^ 53" by simp_all
  qed
qed

lemma nearest_double_error:
  assumes "0 < a" "0 < b" "a < b * 2 ^ 53"
  shows "\<bar>nearest_double a b - real_of_int a / real_of_int b\<bar>
           \<le> real_of_int a / real_of_int b / 2 ^ 53"
proof -
  note sb = binade_shift_bounds[OF assms]
  define k where "k = nat (binade_shift a b)"
  define m where "m = round_even (a * 2 ^ k) b"
  define A B K M where "A = real_of_int a" and "B = real_of_int b"
    and "K = (2::real) ^ k" and "M = real_of_int m"
  have nd: "nearest_double a b = M / K"
    using sb(1) by (simp add: nearest_double_def Let_def k_def m_def M_def K_def)
  have pos: "0 < A" "0 < B" "0 < K" using assms by (simp_all add: A_def B_def K_def)
  have "\<bar>2 * (m * b - a * 2 ^ k)\<bar> \<le> b"
    using round_even_near[OF assms(2), of "a * 2 ^ k"] by (simp add: m_def)
  then have "real_of_int \<bar>2 * (m * b - a * 2 ^ k)\<bar> \<le> real_of_int b"
    by (simp only: of_int_le_iff)
  then have "\<bar>2 * (M * B - A * K)\<bar> \<le> B"
    by (simp add: M_def B_def A_def K_def)
  then have "2 * \<bar>M * B - A * K\<bar> \<le> B" by (simp only: abs_mult abs_numeral)
  then have near: "\<bar>M * B - A * K\<bar> \<le> B / 2" by simp
  have "real_of_int (b * 2 ^ 52) \<le> real_of_int (a * 2 ^ k)"
    using sb(2) by (simp only: of_int_le_iff k_def)
  then have low: "B * 2 ^ 52 \<le> A * K" by (simp add: A_def B_def K_def)
  have e: "M / K - A / B = (M * B - A * K) / (B * K)"
    using pos by (simp add: field_simps)
  have "\<bar>M / K - A / B\<bar> = \<bar>M * B - A * K\<bar> / (B * K)"
    unfolding e using pos by (simp add: abs_mult)
  also have "\<dots> \<le> (B / 2) / (B * K)"
    using pos by (intro divide_right_mono near) simp
  also have "\<dots> = 1 / (2 * K)" using pos by simp
  also have "\<dots> \<le> A / B / 2 ^ 53"
    using low pos by (simp add: field_simps)
  finally show ?thesis by (simp add: nd A_def B_def)
qed

lemma round_even_nearest:
  assumes "0 < d"
  shows "\<bar>round_even n d * d - n\<bar> \<le> \<bar>z * d - n\<bar>"
proof -
  define q where "q = n div d"
  define r where "r = n mod d"
  define P Q where "P = z * d" and "Q = q * d"
  have e: "n = Q + r" "0 \<le> r" "r < d" using assms by (simp_all add: q_def r_def Q_def)
  have m: "round_even n d * d = Q \<and> 2 * r \<le> d \<or> round_even n d * d = Q + d \<and> d \<le> 2 * r"
    by (auto simp: round_even_def Let_def q_def r_def Q_def algebra_simps)
  consider (le) "z \<le> q" | (ge) "q + 1 \<le> z" by linarith
  then have "P \<le> Q \<or> Q + d \<le> P"
  proof cases
    case le
    then have "z * d \<le> q * d" using assms by (intro mult_right_mono) simp_all
    then show ?thesis by (simp add: P_def Q_def)
  next
    case ge
    then have "(q + 1) * d \<le> z * d" using assms by (intro mult_right_mono) simp_all
    then show ?thesis by (simp add: P_def Q_def algebra_simps)
  qed
  then have "\<bar>round_even n d * d - n\<bar> \<le> \<bar>P - n\<bar>" using m e by linarith
  then show ?thesis by (simp only: P_def)
qed

lemma abs_diff_div:
  fixes u v c :: real
  assumes "0 < c"
  shows "\<bar>u * c - v\<bar> / c = \<bar>u - v / c\<bar>" "\<bar>u - v\<bar> / c = \<bar>u / c - v / c\<bar>"
proof -
  have "(u * c - v) / c = u - v / c" "(u - v) / c = u / c - v / c"
    using assms by (simp_all add: diff_divide_distrib)
  then show "\<bar>u * c - v\<bar> / c = \<bar>u - v / c\<bar>" "\<bar>u - v\<bar> / c = \<bar>u / c - v / c\<bar>"
    using abs_div_pos[OF assms, of "u * c - v"] abs_div_pos[OF assms, of "u - v"] by simp_all
qed

lemma is_double_minus: "is_double (- x) = is_double x"
proof -
  have "is_double (- y)" if "is_double y" for y
  proof -
    from that obtain m j where "\<bar>m\<bar> < 2 ^ 53"
      "j \<le> 1074 \<and> y = real_of_int m / 2 ^ j \<or> j \<le> 971 \<and> y = real_of_int m * 2 ^ j"
      unfolding is_double_def by blast
    then have "\<bar>- m\<bar> < 2 ^ 53 \<and>
      (j \<le> 1074 \<and> - y = real_of_int (- m) / 2 ^ j \<or> j \<le> 971 \<and> - y = real_of_int (- m) * 2 ^ j)"
      by auto
    then show ?thesis unfolding is_double_def by blast
  qed
  from this[of x] this[of "- x"] show ?thesis by auto
qed

lemma is_double_scaled:
  assumes "is_double x" "2 ^ 52 < x * 2 ^ k"
  shows "\<exists>z. x * 2 ^ k = real_of_int z"
proof -
  from assms(1) obtain m j where m: "\<bar>m\<bar> < 2 ^ 53"
    and c: "j \<le> 1074 \<and> x = real_of_int m / 2 ^ j \<or> j \<le> 971 \<and> x = real_of_int m * 2 ^ j"
    unfolding is_double_def by blast
  from c show ?thesis
  proof
    assume a: "j \<le> 1074 \<and> x = real_of_int m / 2 ^ j"
    show ?thesis
    proof (cases "j \<le> k")
      case True
      then obtain d where d: "k = j + d" using le_Suc_ex[of j k] by auto
      have "x * 2 ^ k = real_of_int (m * 2 ^ d)" using a by (simp add: d power_add)
      then show ?thesis by blast
    next
      case False
      then have "k < j" by simp
      then obtain d where d: "j = k + Suc d" using less_imp_Suc_add[of k j] by auto
      have "x * 2 ^ k = real_of_int m / 2 ^ Suc d" using a by (simp add: d power_add)
      then have h1: "2 ^ 52 * 2 ^ Suc d < real_of_int m"
        using assms(2) by (simp add: pos_less_divide_eq)
      have "(2::real) ^ 1 \<le> 2 ^ Suc d" by (intro power_increasing) simp_all
      then have "(2::real) ^ 52 * 2 ^ 1 \<le> 2 ^ 52 * 2 ^ Suc d" by (intro mult_left_mono) simp_all
      then have h2: "(2::real) ^ 53 \<le> 2 ^ 52 * 2 ^ Suc d" by simp
      from h1 h2 have "2 ^ 53 < real_of_int m" by linarith
      then have "real_of_int (2 ^ 53) < real_of_int m" by simp
      then have "2 ^ 53 < m" by (simp only: of_int_less_iff)
      then show ?thesis using m by simp
    qed
  next
    assume a: "j \<le> 971 \<and> x = real_of_int m * 2 ^ j"
    then have "x * 2 ^ k = real_of_int (m * 2 ^ j * 2 ^ k)" by simp
    then show ?thesis by blast
  qed
qed

lemma nearest_double_nearest:
  assumes "0 < a" "0 < b" "a < b * 2 ^ 53" "is_double x"
  shows "\<bar>nearest_double a b - real_of_int a / real_of_int b\<bar>
           \<le> \<bar>x - real_of_int a / real_of_int b\<bar>"
proof -
  note sb = binade_shift_bounds[OF assms(1-3)]
  define k where "k = nat (binade_shift a b)"
  define m where "m = round_even (a * 2 ^ k) b"
  define A B K M where "A = real_of_int a" and "B = real_of_int b"
    and "K = (2::real) ^ k" and "M = real_of_int m"
  have nd: "nearest_double a b = M / K"
    using sb(1) by (simp add: nearest_double_def Let_def k_def m_def M_def K_def)
  have pos: "0 < A" "0 < B" "0 < K" using assms by (simp_all add: A_def B_def K_def)
  have "real_of_int (b * 2 ^ 52) \<le> real_of_int (a * 2 ^ k)"
    using sb(2) by (simp only: of_int_le_iff k_def)
  then have "B * 2 ^ 52 \<le> A * K" by (simp add: A_def B_def K_def)
  then have low: "2 ^ 52 \<le> A * K / B" using pos by (simp add: pos_le_divide_eq mult.commute)
  have "real_of_int (a * 2 ^ k) < real_of_int (b * 2 ^ 53)"
    using sb(3) by (simp only: of_int_less_iff k_def)
  then have "A * K < B * 2 ^ 53" by (simp add: A_def B_def K_def)
  then have up: "A * K / B < 2 ^ 53" using pos by (simp add: pos_divide_less_eq mult.commute)
  have int_near: "\<bar>M - A * K / B\<bar> \<le> \<bar>real_of_int z - A * K / B\<bar>" for z
  proof -
    have "real_of_int \<bar>m * b - a * 2 ^ k\<bar> \<le> real_of_int \<bar>z * b - a * 2 ^ k\<bar>"
      using round_even_nearest[OF assms(2), of "a * 2 ^ k" z]
      by (simp only: of_int_le_iff m_def)
    then have "\<bar>M * B - A * K\<bar> \<le> \<bar>real_of_int z * B - A * K\<bar>"
      by (simp add: M_def B_def A_def K_def)
    then have "\<bar>M * B - A * K\<bar> / B \<le> \<bar>real_of_int z * B - A * K\<bar> / B"
      using pos by (intro divide_right_mono) simp_all
    then show ?thesis unfolding abs_diff_div(1)[OF pos(2)] .
  qed
  define y where "y = x * K"
  have scaled: "\<bar>M - A * K / B\<bar> \<le> \<bar>y - A * K / B\<bar>"
  proof -
    consider (below) "y \<le> 2 ^ 52" | (above) "2 ^ 53 \<le> y" | (inside) "2 ^ 52 < y" "y < 2 ^ 53"
      by linarith
    then show ?thesis
    proof cases
      case below
      have "\<bar>M - A * K / B\<bar> \<le> \<bar>real_of_int (2 ^ 52) - A * K / B\<bar>" by (rule int_near)
      then show ?thesis using below low by simp
    next
      case above
      have "\<bar>M - A * K / B\<bar> \<le> \<bar>real_of_int (2 ^ 53) - A * K / B\<bar>" by (rule int_near)
      then show ?thesis using above up by simp
    next
      case inside
      obtain z where "y = real_of_int z"
        using is_double_scaled[OF assms(4), of k] inside(1) by (auto simp: y_def K_def)
      then show ?thesis using int_near[of z] by simp
    qed
  qed
  have "\<bar>M / K - A / B\<bar> = \<bar>M - A * K / B\<bar> / K"
    unfolding abs_diff_div(2)[OF pos(3)] using pos by simp
  also have "\<dots> \<le> \<bar>y - A * K / B\<bar> / K" using pos scaled by (intro divide_right_mono) simp_all
  also have "\<dots> = \<bar>x - A / B\<bar>"
    unfolding abs_diff_div(2)[OF pos(3)] using pos by (simp add: y_def)
  finally show ?thesis by (simp add: nd A_def B_def)
qed

lemma nearest_double_is_double:
  assumes "0 < a" "0 < b" "a < b * 2 ^ 53" "b \<le> 2 ^ 31"
  shows "is_double (nearest_double a b)"
proof -
  note sb = binade_shift_bounds[OF assms(1-3)]
  define k where "k = nat (binade_shift a b)"
  define m where "m = round_even (a * 2 ^ k) b"
  have nd: "nearest_double a b = real_of_int m / 2 ^ k"
    using sb(1) by (simp add: nearest_double_def Let_def k_def m_def)
  have low: "b * 2 ^ 52 \<le> a * 2 ^ k" and up: "a * 2 ^ k < b * 2 ^ 53"
    using sb(2,3) by (simp_all only: k_def)
  have near: "\<bar>2 * (m * b - a * 2 ^ k)\<bar> \<le> b"
    using round_even_near[OF assms(2), of "a * 2 ^ k"] by (simp add: m_def)
  have "2 * (m * b) \<le> 2 * (a * 2 ^ k) + b" using near by (simp add: algebra_simps)
  also have "\<dots> < 2 * (b * 2 ^ 53) + b" using up by simp
  finally have "m * (2 * b) < (2 ^ 53 + 1) * (2 * b)" using assms(2) by (simp add: algebra_simps)
  then have "m < 2 ^ 53 + 1" by (rule mult_right_less_imp_less) (use assms(2) in simp)
  then have mu: "m \<le> 2 ^ 53" by simp
  have "2 * (b * 2 ^ 52) - b \<le> 2 * (a * 2 ^ k) - b" using low by simp
  also have "\<dots> \<le> 2 * (m * b)" using near by (simp add: algebra_simps)
  finally have "(2 ^ 52 - 1) * (2 * b) < m * (2 * b)" using assms(2) by (simp add: algebra_simps)
  then have "2 ^ 52 - 1 < m" by (rule mult_right_less_imp_less) (use assms(2) in simp)
  then have ml: "0 < m" by simp
  have "1 * 2 ^ k \<le> a * 2 ^ k" using assms(1) by (intro mult_right_mono) simp_all
  also have "\<dots> < b * 2 ^ 53" by (rule up)
  also have "\<dots> \<le> 2 ^ 31 * 2 ^ 53" using assms(4) by (intro mult_right_mono) simp_all
  finally have "(2::int) ^ k < 2 ^ 84" by simp
  then have k: "k < 84" by (simp only: power_strict_increasing_iff one_less_numeral_iff semiring_norm)
  show ?thesis
  proof (cases "m = 2 ^ 53")
    case False
    then have "\<bar>m\<bar> < 2 ^ 53" using mu ml by simp
    moreover have "k \<le> 1074" using k by simp
    ultimately show ?thesis unfolding is_double_def nd by blast
  next
    case True
    show ?thesis
    proof (cases k)
      case 0
      have "\<bar>(2::int) ^ 52\<bar> < 2 ^ 53 \<and>
            ((1::nat) \<le> 1074 \<and> nearest_double a b = real_of_int (2 ^ 52) / 2 ^ (1::nat) \<or>
             (1::nat) \<le> 971 \<and> nearest_double a b = real_of_int (2 ^ 52) * 2 ^ (1::nat))"
        unfolding nd True 0 by simp
      then show ?thesis unfolding is_double_def by blast
    next
      case (Suc j)
      have "\<bar>(2::int) ^ 52\<bar> < 2 ^ 53 \<and>
            (j \<le> 1074 \<and> nearest_double a b = real_of_int (2 ^ 52) / 2 ^ j \<or>
             j \<le> 971 \<and> nearest_double a b = real_of_int (2 ^ 52) * 2 ^ j)"
        using k unfolding nd True Suc by simp
      then show ?thesis unfolding is_double_def by blast
    qed
  qed
qed

lemma wrap32_id: "- (2 ^ 31) \<le> x \<Longrightarrow> x < 2 ^ 31 \<Longrightarrow> wrap32 x = x"
  by (simp add: wrap32_def)

lemma wrap32_add: "wrap32 (a + wrap32 b) = wrap32 (a + b)"
proof -
  have "(a + ((b + 2 ^ 31) mod 2 ^ 32 - 2 ^ 31) + 2 ^ 31) mod 2 ^ 32
        = (a + (b + 2 ^ 31) mod 2 ^ 32) mod (2 ^ 32 :: int)"
    by (simp add: algebra_simps)
  also have "\<dots> = (a + (b + 2 ^ 31)) mod 2 ^ 32" by (rule mod_add_right_eq)
  finally show ?thesis by (simp add: wrap32_def algebra_simps)
qed

lemma wrap32_wrap32 [simp]: "wrap32 (wrap32 x) = wrap32 x"
  using wrap32_add[of 0 x] by simp

lemma sum_sizes_eq:
  assumes "length pr = length ps" "i \<le> length ps"
  shows "sum_sizes ps pr (int (length ps)) i (wrap32 acc)
         = Inr (wrap32 (acc + (\<Sum>(s, r)\<leftarrow>drop i (zip ps pr). s * r)))"
  using assms
proof (induction "length ps - i" arbitrary: i acc)
  case 0
  then show ?case by (subst sum_sizes.simps) (simp add: access_defs)
next
  case (Suc k)
  then have lt: "i < length ps" by simp
  have dr: "drop i (zip ps pr) = (ps ! i, pr ! i) # drop (Suc i) (zip ps pr)"
    using lt Suc.prems by (simp add: drop_zip flip: Cons_nth_drop_Suc)
  have w: "wrap32 (wrap32 acc + wrap32 (ps ! i * pr ! i)) = wrap32 (acc + ps ! i * pr ! i)"
    using wrap32_add[of "wrap32 (ps ! i * pr ! i)" acc] wrap32_add[of acc "ps ! i * pr ! i"]
    by (simp add: add.commute)
  have "sum_sizes ps pr (int (length ps)) (Suc i) (wrap32 (acc + ps ! i * pr ! i))
        = Inr (wrap32 (acc + ps ! i * pr ! i + (\<Sum>(s, r)\<leftarrow>drop (Suc i) (zip ps pr). s * r)))"
    using Suc.hyps(1)[of "Suc i"] Suc.hyps(2) Suc.prems lt by simp
  then show ?case using lt Suc.prems dr
    by (subst sum_sizes.simps) (simp add: access_defs w add.assoc)
qed

lemma rate_lists_loop_inv:
  assumes "rate_lists_loop n ps strs c acc = Inr res" "c \<le> n" "length ps = n"
    "length (fst acc) = c" "length (snd acc) = c"
    "\<forall>k<c. length (fst acc ! k) = length (ps ! k) \<and> snd acc ! k = sum_list (fst acc ! k) - 1"
  shows "length (fst res) = n \<and> length (snd res) = n \<and>
    (\<forall>k<n. length (fst res ! k) = length (ps ! k) \<and> snd res ! k = sum_list (fst res ! k) - 1)"
  using assms
proof (induction n ps strs c acc rule: rate_lists_loop.induct)
  case (1 n psizes strs c acc)
  show ?case
  proof (cases "c < n")
    case False
    with "1.prems"(1) have "res = acc"
      by (subst (asm) rate_lists_loop.simps) simp
    then show ?thesis using "1.prems" False by simp
  next
    case True
    from "1.prems"(1) True obtain rates0 b psize max_val where
      e: "elem strs (int c) = Inr rates0" "vback rates0 = Inr b" "elem psizes (int c) = Inr psize"
         "check_rates (resize (length psize) b rates0) (- 1) = Inr max_val"
      and r: "rate_lists_loop n psizes strs (Suc c)
                (fst acc @ [resize (length psize) b rates0], snd acc @ [max_val]) = Inr res"
      by (subst (asm) rate_lists_loop.simps) (auto split: sum.splits if_splits)
    have ps: "psize = psizes ! c" using e(3) True "1.prems"(3) by (auto simp: elem_def split: if_splits)
    have mv: "max_val = sum_list (resize (length psize) b rates0) - 1"
      using check_rates_sum[OF e(4)] by simp
    have len: "length (resize (length psize) b rates0) = length psize"
      by (simp add: resize_def)
    show ?thesis
      apply (rule "1.IH"[OF True e(1) e(2) e(3) e(4) r])
      using True "1.prems" ps mv len
      by (auto simp: nth_append less_Suc_eq)
  qed
qed

lemma rate_scalar_loop_inv:
  assumes "rate_scalar_loop n ps rate c acc = Inr res" "c \<le> n" "length ps = n"
    "length (fst acc) = c" "length (snd acc) = c"
    "\<forall>k<c. length (fst acc ! k) = length (ps ! k) \<and> snd acc ! k = sum_list (fst acc ! k) - 1"
  shows "length (fst res) = n \<and> length (snd res) = n \<and>
    (\<forall>k<n. length (fst res ! k) = length (ps ! k) \<and> snd res ! k = sum_list (fst res ! k) - 1)"
  using assms
proof (induction n ps rate c acc rule: rate_scalar_loop.induct)
  case (1 n psizes rate c acc)
  show ?case
  proof (cases "c < n")
    case False
    with "1.prems"(1) have "res = acc"
      by (subst (asm) rate_scalar_loop.simps) simp
    then show ?thesis using "1.prems" False by simp
  next
    case True
    from "1.prems"(1) True obtain psize where
      e: "elem psizes (int c) = Inr psize"
      and r: "rate_scalar_loop n psizes rate (Suc c)
                (fst acc @ [replicate (length psize) rate], snd acc @ [int (length psize) * rate - 1]) = Inr res"
      by (subst (asm) rate_scalar_loop.simps) (auto split: sum.splits if_splits)
    have ps: "psize = psizes ! c" using e True "1.prems"(3) by (auto simp: elem_def split: if_splits)
    show ?thesis
      apply (rule "1.IH"[OF True e r])
      using True "1.prems" ps
      by (auto simp: nth_append less_Suc_eq sum_list_replicate)
  qed
qed

lemma init_sizes_ok:
  assumes "init_packet_size n cfg = Inr ps" "init_packet_size_rate n ps rcfg = Inr (pr, mv)"
  shows "sizes_ok n ps pr mv"
proof -
  have len: "length ps = n"
    using assms(1) by (auto simp: init_packet_size_def Let_def seq_def resize_def split: sum.splits)
  show ?thesis
  proof (cases rcfg)
    case (Scalar rate)
    then have "rate_scalar_loop n ps rate 0 ([], []) = Inr (pr, mv)"
      using assms(2) by (auto simp: init_packet_size_rate_def seq_def split: sum.splits)
    from rate_scalar_loop_inv[OF this] len show ?thesis by (simp add: sizes_ok_def)
  next
    case (Lists strs)
    then obtain b where "rate_lists_loop n ps (resize n b strs) 0 ([], []) = Inr (pr, mv)"
      using assms(2) by (auto simp: init_packet_size_rate_def seq_def split: sum.splits)
    from rate_lists_loop_inv[OF this] len show ?thesis by (simp add: sizes_ok_def)
  qed
qed


lemma two_sizes_constructed:
  "init_packet_size 1 (Lists [[64, 512]]) = Inr (packet_size two_sizes) \<and>
   init_packet_size_rate 1 (packet_size two_sizes) (Lists [[1, 3]])
     = Inr (packet_size_rate two_sizes, packet_size_max_val two_sizes)"
  by (simp add: init_packet_size_def init_packet_size_rate_def two_sizes_def blank_def
      access_defs resize_def rate_lists_loop.simps)

text \<open>
  Claim C4. \<open>_GetNextPacketSize(c)\<close> returns the only size of a class that has exactly
  one, leaving the random source untouched. Otherwise it draws once with the bound
  \<open>max_val\<close>, which is the sum of the class's rates minus one; the draw lies in
  \<open>[0, max_val]\<close>, the scan returns the size that the walk over the (size, rate)
  pairs selects, the check before the last entry holds, and the result is one of the
  configured sizes.
\<close>

theorem GetNextPacketSize_selects:
  assumes "sizes_inv st" "c < classes st" "random_in_range E"
  shows "if length (packet_size st ! c) = 1
         then GetNextPacketSize E st (int c) = Inr (packet_size st ! c ! 0, ext st)
         else 1 \<le> sum_list (packet_size_rate st ! c) \<longrightarrow>
           (\<exists>pct x' s.
              RandomInt E (sum_list (packet_size_rate st ! c) - 1) (ext st) = (pct, x') \<and>
              0 \<le> pct \<and> pct \<le> sum_list (packet_size_rate st ! c) - 1 \<and>
              walk_rates (zip (packet_size st ! c) (packet_size_rate st ! c)) pct = Some s \<and>
              s \<in> set (packet_size st ! c) \<and>
              GetNextPacketSize E st (int c) = Inr (s, x'))"
proof -
  let ?ps = "packet_size st ! c" and ?pr = "packet_size_rate st ! c"
  have inv: "length (packet_size st) = classes st" "length (packet_size_rate st) = classes st"
    "length (packet_size_max_val st) = classes st" "length ?pr = length ?ps"
    "packet_size_max_val st ! c = sum_list ?pr - 1"
    using assms(1,2) by (simp_all add: sizes_inv_def sizes_ok_def)
  show ?thesis
  proof (cases "length ?ps = 1")
    case True
    then show ?thesis using inv assms(2)
      by (simp add: GetNextPacketSize_def access_defs)
  next
    case False
    have "\<exists>pct x' s.
              RandomInt E (sum_list ?pr - 1) (ext st) = (pct, x') \<and>
              0 \<le> pct \<and> pct \<le> sum_list ?pr - 1 \<and>
              walk_rates (zip ?ps ?pr) pct = Some s \<and> s \<in> set ?ps \<and>
              GetNextPacketSize E st (int c) = Inr (s, x')" if pos: "1 \<le> sum_list ?pr"
    proof -
      obtain pct x' where draw: "RandomInt E (sum_list ?pr - 1) (ext st) = (pct, x')"
        by (cases "RandomInt E (sum_list ?pr - 1) (ext st)")
      have range: "0 \<le> pct" "pct \<le> sum_list ?pr - 1"
        using assms(3) pos draw unfolding random_in_range_def
        by (metis diff_ge_0_iff_ge fst_conv)+
      have "?pr \<noteq> []" using pos by auto
      then have ne: "0 < length ?ps" using inv(4) by auto
      obtain s where s: "scan_sizes ?ps ?pr (int (length ?ps)) 0 pct = Inr s"
        "walk_rates (zip ?ps ?pr) pct = Some s" "s \<in> set ?ps"
        using scan_sizes_walk[OF inv(4) ne, of pct] range by auto
      have "GetNextPacketSize E st (int c) = Inr (s, x')"
        using inv assms(2) False draw s(1) by (simp add: GetNextPacketSize_def access_defs)
      then show ?thesis using draw range s by blast
    qed
    then show ?thesis using False by simp
  qed
qed

lemma quiet_random_in_range: "random_in_range quiet"
proof -
  have "0 \<le> x mod (m + 1) \<and> x mod (m + 1) \<le> m" if "0 \<le> m" for m x :: int
    using that pos_mod_sign[of "m + 1" x] pos_mod_bound[of "m + 1" x] by linarith
  then show ?thesis by (simp add: random_in_range_def quiet_def)
qed

theorem GetNextPacketSize_selects_witness:
  "GetNextPacketSize quiet two_sizes 0 = Inr (512, 3) \<and>
   GetNextPacketSize quiet
     (two_sizes\<lparr>packet_size := [[7]], packet_size_rate := [[3]], packet_size_max_val := [2]\<rparr>) 0
     = Inr (7, 2)"
proof -
  have inv: "sizes_inv two_sizes" "sizes_inv (two_sizes\<lparr>packet_size := [[7]], packet_size_rate := [[3]], packet_size_max_val := [2]\<rparr>)"
    by (simp_all add: sizes_inv_def sizes_ok_def two_sizes_def blank_def)
  have c: "(0::nat) < classes two_sizes"
    "(0::nat) < classes (two_sizes\<lparr>packet_size := [[7]], packet_size_rate := [[3]], packet_size_max_val := [2]\<rparr>)"
    by (simp_all add: two_sizes_def blank_def)
  show ?thesis
    using GetNextPacketSize_selects[OF inv(1) c(1) quiet_random_in_range]
      GetNextPacketSize_selects[OF inv(2) c(2) quiet_random_in_range]
    by (simp add: two_sizes_def blank_def quiet_def)
qed

lemma div_double_nearest:
  assumes "0 < b" "b \<le> 2 ^ 31" "\<bar>a\<bar> \<le> 2 ^ 31"
  shows "\<exists>d. div_double a b = Num d \<and> is_double d \<and>
           (\<forall>x. is_double x \<longrightarrow>
              \<bar>d - real_of_int a / real_of_int b\<bar> \<le> \<bar>x - real_of_int a / real_of_int b\<bar>) \<and>
           \<bar>d - real_of_int a / real_of_int b\<bar> \<le> \<bar>real_of_int a / real_of_int b\<bar> / 2 ^ 53"
proof -
  have "\<bar>a\<bar> < 1 * 2 ^ 53" using assms(3) by simp
  also have "\<dots> \<le> b * 2 ^ 53" using assms(1) by (intro mult_right_mono) simp_all
  finally have lt: "\<bar>a\<bar> < b * 2 ^ 53" .
  consider (zero) "a = 0" | (pos) "0 < a" | (neg) "a < 0" by linarith
  then show ?thesis
  proof cases
    case zero
    have "\<bar>0::int\<bar> < 2 ^ 53 \<and>
          ((0::nat) \<le> 1074 \<and> (0::real) = real_of_int 0 / 2 ^ (0::nat) \<or>
           (0::nat) \<le> 971 \<and> (0::real) = real_of_int 0 * 2 ^ (0::nat))" by simp
    then have "is_double 0" unfolding is_double_def by blast
    then show ?thesis using zero assms(1) by (simp add: div_double_def)
  next
    case pos
    then have l: "a < b * 2 ^ 53" using lt by simp
    have d: "div_double a b = Num (nearest_double a b)"
      using pos assms(1) by (simp add: div_double_def)
    have q: "0 < real_of_int a / real_of_int b" using pos assms(1) by simp
    have e: "\<bar>nearest_double a b - real_of_int a / real_of_int b\<bar>
             \<le> \<bar>real_of_int a / real_of_int b\<bar> / 2 ^ 53"
      using nearest_double_error[OF pos assms(1) l] unfolding abs_of_pos[OF q] .
    show ?thesis
      unfolding d
      using e nearest_double_is_double[OF pos assms(1) l assms(2)]
        nearest_double_nearest[OF pos assms(1) l]
      by blast
  next
    case neg
    then have p: "0 < - a" and l: "- a < b * 2 ^ 53" using lt by simp_all
    have d: "div_double a b = Num (- nearest_double (- a) b)"
      using neg assms(1) by (simp add: div_double_def)
    have q: "real_of_int a / real_of_int b < 0" using neg assms(1)
      by (simp add: divide_neg_pos)
    have n: "\<bar>real_of_int a / real_of_int b\<bar> = real_of_int (- a) / real_of_int b"
      unfolding abs_of_neg[OF q] by simp
    have f: "\<bar>- nearest_double (- a) b - real_of_int a / real_of_int b\<bar>
          = \<bar>nearest_double (- a) b - real_of_int (- a) / real_of_int b\<bar>"
      by simp
    have e: "\<bar>- nearest_double (- a) b - real_of_int a / real_of_int b\<bar>
             \<le> \<bar>real_of_int a / real_of_int b\<bar> / 2 ^ 53"
      using nearest_double_error[OF p assms(1) l] unfolding f n by simp
    have i: "is_double (- nearest_double (- a) b)"
      using nearest_double_is_double[OF p assms(1) l assms(2)] by (simp only: is_double_minus)
    have x: "\<bar>- nearest_double (- a) b - real_of_int a / real_of_int b\<bar>
             \<le> \<bar>x - real_of_int a / real_of_int b\<bar>" if "is_double x" for x
    proof -
      have "is_double (- x)" using that by (simp only: is_double_minus)
      from nearest_double_nearest[OF p assms(1) l this]
      have "\<bar>nearest_double (- a) b - real_of_int (- a) / real_of_int b\<bar>
            \<le> \<bar>- x - real_of_int (- a) / real_of_int b\<bar>" .
      also have "\<dots> = \<bar>x - real_of_int a / real_of_int b\<bar>" by simp
      finally show ?thesis unfolding f .
    qed
    show ?thesis unfolding d using e i x by blast
  qed
qed

lemma GetAveragePacketSize_quotient:
  assumes "sizes_inv st" "c < classes st" "length (packet_size st ! c) \<noteq> 1"
  shows "GetAveragePacketSize st (int c)
           = Inr (div_double
                    (wrap32 (\<Sum>(s, r)\<leftarrow>zip (packet_size st ! c) (packet_size_rate st ! c). s * r))
                    (wrap32 (sum_list (packet_size_rate st ! c))))"
proof -
  let ?ps = "packet_size st ! c" and ?pr = "packet_size_rate st ! c"
  have inv: "length (packet_size st) = classes st" "length (packet_size_rate st) = classes st"
    "length (packet_size_max_val st) = classes st" "length ?pr = length ?ps"
    "packet_size_max_val st ! c = sum_list ?pr - 1"
    using assms(1,2) by (simp_all add: sizes_inv_def sizes_ok_def)
  have "sum_sizes ?ps ?pr (int (length ?ps)) 0 0
          = Inr (wrap32 (\<Sum>(s, r)\<leftarrow>zip ?ps ?pr. s * r))"
    using sum_sizes_eq[OF inv(4), of 0 0] by (simp add: wrap32_def)
  then show ?thesis
    using inv assms(2,3) by (simp add: GetAveragePacketSize_def access_defs)
qed

text \<open>
  Claim C9, as amended. \<open>_GetAveragePacketSize(c)\<close> returns the single size of a class that
  has exactly one. For any other class whose rates have a positive sum, when that sum and
  the sum of size times rate fit the type \<open>int\<close>, it returns the \<open>double\<close> nearest to the
  expectation, the sum of size times rate over the sum of the rates: a \<open>double\<close> than which
  no \<open>double\<close> is nearer to the expectation, which differs from the expectation by at most
  the fraction \<open>2\<^sup>-\<^sup>5\<^sup>3\<close> of it, and which is exactly the expectation when the expectation is
  a \<open>double\<close>, as 400 is for the sizes 64 and 512 at the rates 1 and 3.
\<close>

theorem GetAveragePacketSize_nearest:
  assumes "sizes_inv st" "c < classes st"
  shows "(length (packet_size st ! c) = 1 \<longrightarrow>
            GetAveragePacketSize st (int c)
              = Inr (Num (real_of_int (packet_size st ! c ! 0)))) \<and>
         (length (packet_size st ! c) \<noteq> 1 \<and>
          0 < sum_list (packet_size_rate st ! c) \<and> sum_list (packet_size_rate st ! c) < 2 ^ 31 \<and>
          - (2 ^ 31) \<le> (\<Sum>(s, r)\<leftarrow>zip (packet_size st ! c) (packet_size_rate st ! c). s * r) \<and>
          (\<Sum>(s, r)\<leftarrow>zip (packet_size st ! c) (packet_size_rate st ! c). s * r) < 2 ^ 31 \<longrightarrow>
            (\<exists>d. GetAveragePacketSize st (int c) = Inr (Num d) \<and> is_double d \<and>
                 (\<forall>x. is_double x \<longrightarrow> \<bar>d - expectation st c\<bar> \<le> \<bar>x - expectation st c\<bar>) \<and>
                 \<bar>d - expectation st c\<bar> \<le> \<bar>expectation st c\<bar> / 2 ^ 53 \<and>
                 (is_double (expectation st c) \<longrightarrow> d = expectation st c)))"
proof -
  let ?ps = "packet_size st ! c" and ?pr = "packet_size_rate st ! c"
  let ?total = "\<Sum>(s, r)\<leftarrow>zip ?ps ?pr. s * r"
  have inv: "length (packet_size st) = classes st"
    using assms(1) by (simp add: sizes_inv_def sizes_ok_def)
  have one: "GetAveragePacketSize st (int c) = Inr (Num (real_of_int (?ps ! 0)))"
    if "length ?ps = 1"
    using inv assms(2) that by (simp add: GetAveragePacketSize_def access_defs)
  have near: "\<exists>d. GetAveragePacketSize st (int c) = Inr (Num d) \<and> is_double d \<and>
                 (\<forall>x. is_double x \<longrightarrow> \<bar>d - expectation st c\<bar> \<le> \<bar>x - expectation st c\<bar>) \<and>
                 \<bar>d - expectation st c\<bar> \<le> \<bar>expectation st c\<bar> / 2 ^ 53 \<and>
                 (is_double (expectation st c) \<longrightarrow> d = expectation st c)"
    if "length ?ps \<noteq> 1" "0 < sum_list ?pr" "sum_list ?pr < 2 ^ 31"
      "- (2 ^ 31) \<le> ?total" "?total < 2 ^ 31"
  proof -
    note t = that
    have w: "wrap32 ?total = ?total" "wrap32 (sum_list ?pr) = sum_list ?pr"
      using t by (simp_all add: wrap32_id)
    have b: "sum_list ?pr \<le> 2 ^ 31" "\<bar>?total\<bar> \<le> 2 ^ 31" using t(3,4,5) by simp_all
    obtain d where d: "div_double ?total (sum_list ?pr) = Num d" "is_double d"
      "\<And>x. is_double x \<Longrightarrow> \<bar>d - expectation st c\<bar> \<le> \<bar>x - expectation st c\<bar>"
      "\<bar>d - expectation st c\<bar> \<le> \<bar>expectation st c\<bar> / 2 ^ 53"
      using div_double_nearest[OF t(2) b] unfolding expectation_def by blast
    have "d = expectation st c" if "is_double (expectation st c)"
      using d(3)[OF that] by simp
    then show ?thesis
      using d unfolding GetAveragePacketSize_quotient[OF assms t(1)] w by blast
  qed
  show ?thesis using one near by blast
qed

text \<open>
  For the sizes 1 and 2 at the rates 1 and 2 the expectation is 5/3, which is no double;
  the result is the double \<open>0x1.aaaaaaaaaaaabp+0\<close>. For the sizes 100000 and 1 at the rates
  30000 and 1 the sum 3000000001 does not fit the type \<open>int\<close>, and the result is negative.
\<close>

theorem GetAveragePacketSize_not_exact:
  "sizes_inv one_two \<and> expectation one_two 0 = 5 / 3 \<and>
   GetAveragePacketSize one_two 0 = Inr (Num (7505999378950827 / 4503599627370496)) \<and>
   GetAveragePacketSize one_two 0 \<noteq> Inr (Num (expectation one_two 0)) \<and>
   sizes_inv large_sizes \<and> expectation large_sizes 0 = 3000000001 / 30001 \<and>
   GetAveragePacketSize large_sizes 0 = Inr (Num (- 5932433912378477 / 137438953472))"
proof -
  have "sizes_inv one_two" "sizes_inv large_sizes"
    by (simp_all add: sizes_inv_def sizes_ok_def one_two_def large_sizes_def blank_def)
  moreover have "expectation one_two 0 = 5 / 3"
    "expectation large_sizes 0 = 3000000001 / 30001"
    by (simp_all add: expectation_def one_two_def large_sizes_def blank_def)
  moreover have "GetAveragePacketSize one_two 0
                   = Inr (Num (7505999378950827 / 4503599627370496))"
    by (simp add: GetAveragePacketSize_def sum_sizes.simps access_defs one_two_def blank_def
        div_double_def nearest_double_def binade_shift_def compute_bitlen Let_def round_even_def
        wrap32_def)
  moreover have "GetAveragePacketSize large_sizes 0
                   = Inr (Num (- 5932433912378477 / 137438953472))"
    by (simp add: GetAveragePacketSize_def sum_sizes.simps access_defs large_sizes_def
        blank_def div_double_def nearest_double_def binade_shift_def compute_bitlen Let_def
        round_even_def wrap32_def)
  ultimately show ?thesis by simp
qed

theorem GetAveragePacketSize_nearest_witness:
  "GetAveragePacketSize two_sizes 0 = Inr (Num 400) \<and> expectation two_sizes 0 = 400 \<and>
   GetAveragePacketSize
     (two_sizes\<lparr>packet_size := [[7]], packet_size_rate := [[3]], packet_size_max_val := [2]\<rparr>) 0
     = Inr (Num 7) \<and>
   (\<exists>d. GetAveragePacketSize one_two 0 = Inr (Num d) \<and> is_double d \<and>
        \<bar>d - 5 / 3\<bar> \<le> 5 / 3 / 2 ^ 53)"
proof -
  have inv12: "sizes_inv one_two" "(0::nat) < classes one_two"
    by (simp_all add: sizes_inv_def sizes_ok_def one_two_def blank_def)
  have e12: "expectation one_two 0 = 5 / 3"
    by (simp add: expectation_def one_two_def blank_def)
  have h12: "length (packet_size one_two ! 0) \<noteq> 1 \<and>
          0 < sum_list (packet_size_rate one_two ! 0) \<and>
          sum_list (packet_size_rate one_two ! 0) < 2 ^ 31 \<and>
          - (2 ^ 31) \<le> (\<Sum>(s, r)\<leftarrow>zip (packet_size one_two ! 0)
                                     (packet_size_rate one_two ! 0). s * r) \<and>
          (\<Sum>(s, r)\<leftarrow>zip (packet_size one_two ! 0)
                        (packet_size_rate one_two ! 0). s * r) < 2 ^ 31"
    by (simp add: one_two_def blank_def)
  have w12: "\<exists>d. GetAveragePacketSize one_two 0 = Inr (Num d) \<and> is_double d \<and>
        \<bar>d - 5 / 3\<bar> \<le> 5 / 3 / 2 ^ 53"
    using GetAveragePacketSize_nearest[OF inv12, THEN conjunct2, rule_format, OF h12]
    unfolding e12 by auto
  let ?one = "two_sizes\<lparr>packet_size := [[7]], packet_size_rate := [[3]],
                         packet_size_max_val := [2]\<rparr>"
  have inv: "sizes_inv two_sizes" "(0::nat) < classes two_sizes"
    "sizes_inv ?one" "(0::nat) < classes ?one"
    by (simp_all add: sizes_inv_def sizes_ok_def two_sizes_def blank_def)
  have e: "expectation two_sizes 0 = 400"
    by (simp add: expectation_def two_sizes_def blank_def)
  have "\<bar>400::int\<bar> < 2 ^ 53 \<and>
        ((0::nat) \<le> 1074 \<and> (400::real) = real_of_int 400 / 2 ^ (0::nat) \<or>
         (0::nat) \<le> 971 \<and> (400::real) = real_of_int 400 * 2 ^ (0::nat))" by simp
  then have r: "is_double (expectation two_sizes 0)" unfolding e is_double_def by blast
  have h: "length (packet_size two_sizes ! 0) \<noteq> 1 \<and>
          0 < sum_list (packet_size_rate two_sizes ! 0) \<and>
          sum_list (packet_size_rate two_sizes ! 0) < 2 ^ 31 \<and>
          - (2 ^ 31) \<le> (\<Sum>(s, r)\<leftarrow>zip (packet_size two_sizes ! 0)
                                     (packet_size_rate two_sizes ! 0). s * r) \<and>
          (\<Sum>(s, r)\<leftarrow>zip (packet_size two_sizes ! 0)
                        (packet_size_rate two_sizes ! 0). s * r) < 2 ^ 31"
    by (simp add: two_sizes_def blank_def)
  from GetAveragePacketSize_nearest[OF inv(1,2), THEN conjunct2, rule_format, OF h]
  obtain d where d: "GetAveragePacketSize two_sizes 0 = Inr (Num d)"
    "is_double (expectation two_sizes 0) \<longrightarrow> d = expectation two_sizes 0"
    by auto
  have "GetAveragePacketSize two_sizes 0 = Inr (Num 400)" using d r e by simp
  moreover have "GetAveragePacketSize ?one 0 = Inr (Num 7)"
    using GetAveragePacketSize_nearest[OF inv(3,4), THEN conjunct1]
    by (simp add: two_sizes_def blank_def)
  ultimately show ?thesis using e w12 by simp
qed

lemma matrix_row: "matrix n m rows \<Longrightarrow> c < n \<Longrightarrow> length (rows ! c) = m"
  by (simp add: matrix_def)

lemma matrix_length: "matrix n m rows \<Longrightarrow> length rows = n"
  by (simp add: matrix_def)

lemma GetNextPacketSize_seq_no [simp]:
  "GetNextPacketSize E (st\<lparr>packet_seq_no := sq\<rparr>) r = GetNextPacketSize E st r"
  by (simp add: GetNextPacketSize_def cong: if_cong)

section \<open>Retirement of a packet\<close>

text \<open>
  Claim C1. When the tail's class has no reply class, \<open>_RetirePacket\<close> decrements one
  outstanding-transaction counter: that of the request class at the arrival node when the
  tail's class is the reply class of a request class, and that of the tail's class at the
  tail's source otherwise. One sample \<open>atime - ttime\<close> of the tail is appended to the
  class collector and to the (arrival node, source) pair collector of the resolved class
  exactly when the simulation is warming up or the tail is flagged; nothing else changes.
\<close>

theorem RetirePacket_terminal:
  assumes "shape st" "classes_inv st"
    and "cl tail = int c" "c < classes st"
    and "src tail = int s" "s < nodes st"
    and "dst = int d" "d < nodes st"
    and "reply_class st ! c < 0"
  shows "RetirePacket E st head tail dst =
    Inr (let r = request_class st ! c;
             k = (if 0 \<le> r then nat r else c);
             n = (if 0 \<le> r then d else s);
             ro = requests_outstanding st; ts = tlat_stats st; pt = pair_tlat st;
             st1 = st\<lparr>requests_outstanding := ro[k := (ro ! k)[n := ro ! k ! n - 1]]\<rparr>
         in if sim_state st = warming_up \<or> record_flag tail
            then st1\<lparr>tlat_stats := ts[k := ts ! k @ [atime tail - ttime tail]],
                     pair_tlat := pt[k := (pt ! k)[d * nodes st + s :=
                                        pt ! k ! (d * nodes st + s) @ [atime tail - ttime tail]]]\<rparr>
            else st1)"
proof -
  have sh: "length (reply_class st) = classes st" "length (request_class st) = classes st"
    "length (requests_outstanding st) = classes st" "length (tlat_stats st) = classes st"
    "length (pair_tlat st) = classes st"
    and rows: "\<And>k. k < classes st \<Longrightarrow> length (requests_outstanding st ! k) = nodes st"
      "\<And>k. k < classes st \<Longrightarrow> length (pair_tlat st ! k) = nodes st * nodes st"
    using assms(1) by (simp_all add: shape_def matrix_def)
  have r: "request_class st ! c < int (classes st)"
    using assms(2,4) by (simp add: classes_inv_def)
  have idx: "d * nodes st + s < nodes st * nodes st"
  proof -
    have "d * nodes st + s < d * nodes st + nodes st" using assms(6) by simp
    also have "\<dots> = Suc d * nodes st" by simp
    also have "\<dots> \<le> nodes st * nodes st" using assms(8) by (simp add: Suc_leI mult_le_mono1 del: mult_Suc)
    finally show ?thesis .
  qed
  have idx': "nat (int d * int (nodes st) + int s) = d * nodes st + s"
    by (simp add: nat_add_distrib nat_mult_distrib)
  have idx'': "int d * int (nodes st) + int s < int (nodes st * nodes st)"
    using idx by (simp flip: of_nat_mult of_nat_add)
  show ?thesis
  proof (cases "0 \<le> request_class st ! c")
    case True
    then obtain k where k: "request_class st ! c = int k" "k < classes st"
      using r by (metis nat_less_iff zero_le_imp_eq_int of_nat_less_iff)
    show ?thesis
      using assms(3-9) sh rows[OF k(2)] k idx idx''
      by (simp add: RetirePacket_def access_defs AddSample_def Let_def idx' del: of_nat_mult)
  next
    case False
    show ?thesis
      using assms(3-9) sh rows[OF assms(4)] False idx idx''
      by (simp add: RetirePacket_def access_defs AddSample_def Let_def idx' del: of_nat_mult)
  qed
qed


lemma two_nodes_shape: "shape two_nodes"
  by (simp add: shape_def matrix_def two_nodes_def blank_def)

lemma two_nodes_classes_inv: "classes_inv two_nodes"
  by (simp add: classes_inv_def two_nodes_def blank_def less_Suc_eq numeral_2_eq_2)

theorem RetirePacket_terminal_witness:
  "RetirePacket quiet two_nodes a_flit (a_flit\<lparr>cl := 1, src := 1, dest := 0\<rparr>) 0 =
     Inr (two_nodes\<lparr>requests_outstanding := [[- 1, 0], [0, 0]],
                    tlat_stats := [[7], []],
                    pair_tlat := [[[], [7], [], []], [[], [], [], []]]\<rparr>)"
  using RetirePacket_terminal[OF two_nodes_shape two_nodes_classes_inv,
      of "a_flit\<lparr>cl := 1, src := 1, dest := 0\<rparr>" 1 1 0 0 quiet a_flit]
  by (simp add: two_nodes_def blank_def a_flit_def Let_def)

text \<open>
  Claim C2. When the tail's class has the reply class \<open>r\<close>, \<open>_RetirePacket\<close> calls
  \<open>_GeneratePacket\<close> once, from the head's destination to the head's source, in
  class \<open>r\<close>, with the tail's transaction id and injection time, one cycle after the
  tail's arrival; the sequence number of the tail's class at the arrival node goes up by
  one, and no counter of outstanding transactions and no collector changes.
\<close>

theorem RetirePacket_reply:
  assumes "shape st" "classes_inv st" "generate_frame E"
    and "cl tail = int c" "c < classes st"
    and "dst = int d" "d < nodes st"
    and "0 \<le> reply_class st ! c"
    and "GetNextPacketSize E st (reply_class st ! c) = Inr (sz, x')"
  shows "\<exists>st'. RetirePacket E st head tail dst = Inr st' \<and>
           st' = GeneratePacket E
                   \<lparr>g_source = dest head, g_dest = src head, g_size = sz,
                    g_cl = reply_class st ! c, g_time = atime tail + 1,
                    g_tid = tid tail, g_ttime = ttime tail\<rparr>
                   (st\<lparr>packet_seq_no :=
                         (packet_seq_no st)[c := (packet_seq_no st ! c)
                                              [d := packet_seq_no st ! c ! d + 1]],
                       ext := x'\<rparr>) \<and>
           packet_seq_no st' = (packet_seq_no st)[c := (packet_seq_no st ! c)
                                                    [d := packet_seq_no st ! c ! d + 1]] \<and>
           requests_outstanding st' = requests_outstanding st \<and>
           tlat_stats st' = tlat_stats st \<and> pair_tlat st' = pair_tlat st"
proof -
  have sh: "length (reply_class st) = classes st" "length (packet_seq_no st) = classes st"
    "length (packet_seq_no st ! c) = nodes st"
    using assms(1,5) by (simp_all add: shape_def matrix_def)
  have r: "reply_class st ! c < int (classes st)"
    using assms(2,5) by (simp add: classes_inv_def)
  have "RetirePacket E st head tail dst =
          Inr (GeneratePacket E
                   \<lparr>g_source = dest head, g_dest = src head, g_size = sz,
                    g_cl = reply_class st ! c, g_time = atime tail + 1,
                    g_tid = tid tail, g_ttime = ttime tail\<rparr>
                   (st\<lparr>packet_seq_no :=
                         (packet_seq_no st)[c := (packet_seq_no st ! c)
                                              [d := packet_seq_no st ! c ! d + 1]],
                       ext := x'\<rparr>))"
    using assms(4-9) sh r
    by (simp add: RetirePacket_def access_defs)
  then show ?thesis using assms(3) by (simp add: generate_frame_def)
qed

theorem RetirePacket_reply_witness:
  "RetirePacket quiet two_nodes a_flit a_flit 1 =
     Inr (two_nodes\<lparr>packet_seq_no := [[0, 1], [0, 0]]\<rparr>)"
proof -
  have g: "generate_frame quiet" by (simp add: generate_frame_def quiet_def)
  have s: "GetNextPacketSize quiet two_nodes (reply_class two_nodes ! 0) = Inr (1, ext two_nodes)"
    by (simp add: GetNextPacketSize_def two_nodes_def blank_def access_defs)
  show ?thesis
    using RetirePacket_reply[OF two_nodes_shape two_nodes_classes_inv g _ _ _ _ _ s,
        where tail = a_flit and dst = 1 and d = 1 and head = a_flit]
    by (simp add: two_nodes_def blank_def a_flit_def quiet_def)
qed

section \<open>Drain detection\<close>

lemma undrained_source_eq:
  assumes "c < length qd" "\<forall>s\<in>set ss. s < length (qd ! c)"
  shows "undrained_source qd c ss = Inr (\<exists>s\<in>set ss. \<not> qd ! c ! s)"
  using assms by (induction ss) (auto simp: access_defs)

lemma outstanding_loop_eq:
  assumes "shape st" "\<forall>c\<in>set cs. c < classes st"
    and "\<forall>c\<in>set cs. measure_stats st ! c \<noteq> 0 \<longrightarrow> measured_in_flight_flits st ! c = []"
  shows "outstanding_loop st cs =
           Inr (\<exists>c\<in>set cs. measure_stats st ! c \<noteq> 0 \<and> (\<exists>s<nodes st. \<not> qdrained st ! c ! s))"
  using assms(2,3)
proof (induction cs)
  case Nil
  then show ?case by simp
next
  case (Cons c cs)
  have c: "c < classes st" using Cons.prems by simp
  have sh: "length (measure_stats st) = classes st"
    "length (measured_in_flight_flits st) = classes st"
    "length (qdrained st) = classes st" "length (qdrained st ! c) = nodes st"
    using assms(1) c by (simp_all add: shape_def matrix_def)
  have u: "undrained_source (qdrained st) c [0..<nodes st]
           = Inr (\<exists>s<nodes st. \<not> qdrained st ! c ! s)"
    using undrained_source_eq[of c "qdrained st" "[0..<nodes st]"] sh c by auto
  have IH: "outstanding_loop st cs =
           Inr (\<exists>c\<in>set cs. measure_stats st ! c \<noteq> 0 \<and> (\<exists>s<nodes st. \<not> qdrained st ! c ! s))"
    using Cons by simp
  show ?case
    using c sh u IH Cons.prems(2) by (auto simp: access_defs)
qed

text \<open>
  Claim C6. \<open>_PacketsOutstanding\<close> returns false exactly when the base engine's
  \<open>_PacketsOutstanding\<close> reports no measured traffic in flight and every source of
  every measured class is marked drained; it returns true otherwise.
\<close>

theorem PacketsOutstanding_false_iff:
  assumes "shape st" "base_reports_in_flight E st"
  shows "(PacketsOutstanding E st = Inr False \<longleftrightarrow>
            \<not> base_PacketsOutstanding E st \<and>
            (\<forall>c<classes st. measure_stats st ! c \<noteq> 0 \<longrightarrow> (\<forall>s<nodes st. qdrained st ! c ! s))) \<and>
         (PacketsOutstanding E st = Inr True \<longleftrightarrow>
            \<not> (\<not> base_PacketsOutstanding E st \<and>
            (\<forall>c<classes st. measure_stats st ! c \<noteq> 0 \<longrightarrow> (\<forall>s<nodes st. qdrained st ! c ! s))))"
proof (cases "base_PacketsOutstanding E st")
  case True
  then show ?thesis by (simp add: PacketsOutstanding_def)
next
  case False
  then have "\<forall>c\<in>set [0..<classes st].
      measure_stats st ! c \<noteq> 0 \<longrightarrow> measured_in_flight_flits st ! c = []"
    using assms(2) by (simp add: base_reports_in_flight_def)
  from outstanding_loop_eq[OF assms(1) _ this] False show ?thesis
    by (auto simp: PacketsOutstanding_def)
qed

theorem PacketsOutstanding_false_iff_witness:
  "PacketsOutstanding quiet (two_nodes\<lparr>qdrained := [[True, True], [True, True]]\<rparr>) = Inr False \<and>
   PacketsOutstanding quiet two_nodes = Inr True"
proof -
  have "shape (two_nodes\<lparr>qdrained := [[True, True], [True, True]]\<rparr>)"
    "base_reports_in_flight quiet (two_nodes\<lparr>qdrained := [[True, True], [True, True]]\<rparr>)"
    "shape two_nodes" "base_reports_in_flight quiet two_nodes"
    by (simp_all add: shape_def matrix_def base_reports_in_flight_def two_nodes_def blank_def
        less_Suc_eq numeral_2_eq_2)
  from PacketsOutstanding_false_iff[OF this(1,2)] PacketsOutstanding_false_iff[OF this(3,4)]
  show ?thesis
    by (auto simp: two_nodes_def blank_def quiet_def less_Suc_eq numeral_2_eq_2)
qed

section \<open>The timer loop\<close>

lemma matrix_iff: "matrix n m rows \<longleftrightarrow> length rows = n \<and> (\<forall>i<n. length (rows ! i) = m)"
  by (auto simp: matrix_def all_set_conv_all_nth)

lemma length_upd2 [simp]: "length (upd2 rows i j x) = length rows"
  by (simp add: upd2_def)

lemma length_upd2_row [simp]:
  "k < length rows \<Longrightarrow> length (upd2 rows i j x ! k) = length (rows ! k)"
  by (cases "i = k") (simp_all add: upd2_def)

lemma matrix_upd2 [simp]: "matrix n m (upd2 rows i j x) = matrix n m rows"
  by (auto simp: matrix_iff)

lemma elem2_matrix:
  "matrix n m rows \<Longrightarrow> i < n \<Longrightarrow> j < m \<Longrightarrow> elem2 rows (int i) (int j) = Inr (rows ! i ! j)"
  by (simp add: matrix_def access_defs)

lemma put2_matrix:
  "matrix n m rows \<Longrightarrow> i < n \<Longrightarrow> j < m \<Longrightarrow> put2 rows (int i) (int j) x = Inr (upd2 rows i j x)"
  by (simp add: matrix_def access_defs upd2_def)

lemma add2_matrix:
  "matrix n m rows \<Longrightarrow> i < n \<Longrightarrow> j < m
   \<Longrightarrow> add2 rows (int i) (int j) d = Inr (upd2 rows i j (rows ! i ! j + d))"
  by (simp add: add2_def elem2_matrix put2_matrix)

lemma upd2_nth:
  "matrix n m rows \<Longrightarrow> i < n \<Longrightarrow> j < m \<Longrightarrow> i' < n \<Longrightarrow> j' < m \<Longrightarrow>
   upd2 rows i j x ! i' ! j' = (if i' = i \<and> j' = j then x else rows ! i' ! j')"
  by (auto simp: matrix_def upd2_def nth_list_update)

lemma upd2_upd2 [simp]: "upd2 (upd2 rows i j x) i j y = upd2 rows i j y"
  by (cases "i < length rows") (simp_all add: upd2_def list_update_beyond not_less)

lemma upd2_same: "matrix n m rows \<Longrightarrow> upd2 rows i j (rows ! i ! j) = rows"
  by (simp add: upd2_def)


lemma upd2_id [simp]: "upd2 rows i j (rows ! i ! j) = rows"
  by (simp add: upd2_def)

lemma attempt_frame:
  assumes "issue_frame E"
  shows "classes (snd (attempt E c s st)) = classes st"
    "nodes (snd (attempt E c s st)) = nodes st"
    "time (snd (attempt E c s st)) = time st"
    "drain_time (snd (attempt E c s st)) = drain_time st"
    "sim_state (snd (attempt E c s st)) = sim_state st"
    "request_class (snd (attempt E c s st)) = request_class st"
    "requests_outstanding (snd (attempt E c s st)) = requests_outstanding st"
    "packet_seq_no (snd (attempt E c s st)) = packet_seq_no st"
    "qdrained (snd (attempt E c s st)) = qdrained st"
    "qtime (snd (attempt E c s st)) = upd2 (qtime st) c s (qtime st ! c ! s + 1)"
    "\<exists>l. partial_packets (snd (attempt E c s st)) = upd2 (partial_packets st) c s l"
  using assms[unfolded issue_frame_def, rule_format,
      of "int s" "int c" "st\<lparr>qtime := upd2 (qtime st) c s (qtime st ! c ! s + 1)\<rparr>"]
  by (simp_all add: attempt_def)

lemma attempt_shape:
  assumes "issue_frame E" "queues_shape st"
  shows "queues_shape (snd (attempt E c s st))"
proof -
  obtain l where "partial_packets (snd (attempt E c s st)) = upd2 (partial_packets st) c s l"
    using attempt_frame(11)[OF assms(1)] by blast
  then show ?thesis
    using assms(2) by (simp add: queues_shape_def attempt_frame[OF assms(1)])
qed

lemma timer_loop_advance:
  assumes "issue_frame E" "queues_shape st" "c < classes st" "s < nodes st"
    and "m = nat (time st + 1 - qtime st ! c ! s)"
  shows "timer_loop E c s k st
         = Some (Inr (k + fst (advance E c s m st), snd (advance E c s m st)))"
  using assms(2-5)
proof (induction m arbitrary: st k)
  case 0
  have q: "elem2 (qtime st) (int c) (int s) = Inr (qtime st ! c ! s)"
    using 0 by (auto simp: queues_shape_def intro: elem2_matrix)
  show ?case using 0(4) by (subst timer_loop.simps) (simp add: q)
next
  case (Suc m)
  let ?q = "qtime st ! c ! s"
  have q: "elem2 (qtime st) (int c) (int s) = Inr ?q"
    "put2 (qtime st) (int c) (int s) (?q + 1) = Inr (upd2 (qtime st) c s (?q + 1))"
    using Suc.prems by (auto simp: queues_shape_def intro: elem2_matrix put2_matrix)
  have le: "?q \<le> time st" using Suc.prems(4) by linarith
  obtain ok st1 where a: "attempt E c s st = (ok, st1)" by (cases "attempt E c s st")
  then have i: "IssuePacket E (int s) (int c) (st\<lparr>qtime := upd2 (qtime st) c s (?q + 1)\<rparr>) = (ok, st1)"
    by (simp add: attempt_def)
  have st1: "st1 = snd (attempt E c s st)" using a by simp
  have sh1: "queues_shape st1" using attempt_shape[OF assms(1) Suc.prems(1)] st1 by simp
  have fr: "classes st1 = classes st" "nodes st1 = nodes st" "time st1 = time st"
    "requests_outstanding st1 = requests_outstanding st" "packet_seq_no st1 = packet_seq_no st"
    "qtime st1 = upd2 (qtime st) c s (?q + 1)"
    using attempt_frame[OF assms(1), of c s st] st1 by simp_all
  show ?case
  proof (cases ok)
    case True
    have "add2 (requests_outstanding st1) (int c) (int s) 1
            = Inr (upd2 (requests_outstanding st1) c s (requests_outstanding st1 ! c ! s + 1))"
      "add2 (packet_seq_no st1) (int c) (int s) 1
            = Inr (upd2 (packet_seq_no st1) c s (packet_seq_no st1 ! c ! s + 1))"
      using sh1 Suc.prems(2,3) fr(1,2) by (auto simp: queues_shape_def intro: add2_matrix)
    then show ?thesis using True a i le
      by (subst timer_loop.simps) (simp add: q count_issue_def)
  next
    case False
    have "qtime st1 ! c ! s = ?q + 1"
      using fr(6) Suc.prems(1-3) upd2_nth[of "classes st" "nodes st" "qtime st" c s c s]
      by (simp add: queues_shape_def)
    then have m: "m = nat (time st1 + 1 - qtime st1 ! c ! s)"
      using Suc.prems(4) fr(3) by linarith
    have "timer_loop E c s (Suc k) st1
          = Some (Inr (Suc k + fst (advance E c s m st1), snd (advance E c s m st1)))"
      using Suc.IH[OF sh1 _ _ m] Suc.prems(2,3) fr(1,2) by simp
    then show ?thesis using False a i le
      by (subst timer_loop.simps) (simp add: q split: prod.splits)
  qed
qed



lemma advance_effect:
  assumes "issue_frame E" "queues_shape st" "c < classes st" "s < nodes st"
  shows "queues_shape (snd (advance E c s m st)) \<and>
         same_globals st (snd (advance E c s m st)) \<and>
         qdrained (snd (advance E c s m st)) = qdrained st \<and>
         qtime (snd (advance E c s m st))
           = upd2 (qtime st) c s (qtime st ! c ! s + int (fst (advance E c s m st))) \<and>
         (\<exists>l. partial_packets (snd (advance E c s m st)) = upd2 (partial_packets st) c s l) \<and>
         fst (advance E c s m st) \<le> m \<and>
         (requests_outstanding (snd (advance E c s m st)) = requests_outstanding st \<and>
          packet_seq_no (snd (advance E c s m st)) = packet_seq_no st \<and>
          fst (advance E c s m st) = m
          \<or>
          requests_outstanding (snd (advance E c s m st))
            = upd2 (requests_outstanding st) c s (requests_outstanding st ! c ! s + 1) \<and>
          packet_seq_no (snd (advance E c s m st))
            = upd2 (packet_seq_no st) c s (packet_seq_no st ! c ! s + 1) \<and>
          1 \<le> fst (advance E c s m st))"
  using assms(2-4)
proof (induction m arbitrary: st)
  case 0
  have "\<exists>l. partial_packets st = upd2 (partial_packets st) c s l"
    by (rule exI[of _ "partial_packets st ! c ! s"]) simp
  then show ?case using 0 by (simp add: same_globals_def)
next
  case (Suc m)
  let ?q = "qtime st ! c ! s"
  obtain ok st1 where a: "attempt E c s st = (ok, st1)" by (cases "attempt E c s st")
  then have st1: "st1 = snd (attempt E c s st)" by simp
  have sh1: "queues_shape st1" using attempt_shape[OF assms(1) Suc.prems(1)] st1 by simp
  have fr: "classes st1 = classes st" "nodes st1 = nodes st" "time st1 = time st"
    "drain_time st1 = drain_time st" "sim_state st1 = sim_state st"
    "request_class st1 = request_class st"
    "requests_outstanding st1 = requests_outstanding st" "packet_seq_no st1 = packet_seq_no st"
    "qdrained st1 = qdrained st"
    "qtime st1 = upd2 (qtime st) c s (?q + 1)"
    using attempt_frame[OF assms(1), of c s st] st1 by simp_all
  obtain l where l: "partial_packets st1 = upd2 (partial_packets st) c s l"
    using attempt_frame(11)[OF assms(1), of c s st] st1 by auto
  show ?case
  proof (cases ok)
    case True
    have "\<exists>l. partial_packets st1 = upd2 (partial_packets st) c s l" using l by blast
    then show ?thesis using True a sh1 fr
      by (simp add: count_issue_def queues_shape_def same_globals_def)
  next
    case False
    let ?r = "advance E c s m st1"
    have q1: "qtime st1 ! c ! s = ?q + 1"
      using fr(10) Suc.prems upd2_nth[of "classes st" "nodes st" "qtime st" c s c s]
      by (simp add: queues_shape_def)
    have IH: "queues_shape (snd ?r)" "same_globals st1 (snd ?r)"
      "qdrained (snd ?r) = qdrained st1"
      "qtime (snd ?r) = upd2 (qtime st1) c s (qtime st1 ! c ! s + int (fst ?r))"
      "\<exists>l. partial_packets (snd ?r) = upd2 (partial_packets st1) c s l"
      "fst ?r \<le> m"
      "requests_outstanding (snd ?r) = requests_outstanding st1 \<and>
       packet_seq_no (snd ?r) = packet_seq_no st1 \<and> fst ?r = m
       \<or>
       requests_outstanding (snd ?r)
         = upd2 (requests_outstanding st1) c s (requests_outstanding st1 ! c ! s + 1) \<and>
       packet_seq_no (snd ?r)
         = upd2 (packet_seq_no st1) c s (packet_seq_no st1 ! c ! s + 1) \<and>
       1 \<le> fst ?r"
      using Suc.IH[OF sh1] Suc.prems(2,3) fr(1,2) by simp_all
    have res: "advance E c s (Suc m) st = (Suc (fst ?r), snd ?r)"
      using False a by (simp split: prod.splits)
    have pp: "\<exists>l. partial_packets (snd ?r) = upd2 (partial_packets st) c s l"
      using IH(5) l by auto
    have qt: "qtime (snd ?r) = upd2 (qtime st) c s (?q + int (Suc (fst ?r)))"
      using IH(4) q1 fr(10) by (simp add: add.assoc)
    show ?thesis
      unfolding res fst_conv snd_conv
      using IH(1,2,3,6,7) pp qt fr by (auto simp: same_globals_def)
  qed
qed


lemma upd2_nth_neq [simp]: "i' \<noteq> i \<or> j' \<noteq> j \<Longrightarrow> upd2 rows i j x ! i' ! j' = rows ! i' ! j'"
  by (cases "i' = i"; cases "i < length rows") (auto simp: upd2_def list_update_beyond not_less)

lemma upd2_nth_eq: "i < length rows \<Longrightarrow> j < length (rows ! i) \<Longrightarrow> upd2 rows i j x ! i ! j = x"
  by (simp add: upd2_def)

lemma queues_shape_lengths:
  assumes "queues_shape st" "c < classes st"
  shows "length (qtime st) = classes st" "length (qtime st ! c) = nodes st"
    "length (qdrained st) = classes st" "length (qdrained st ! c) = nodes st"
    "length (requests_outstanding st) = classes st"
    "length (requests_outstanding st ! c) = nodes st"
    "length (packet_seq_no st) = classes st" "length (packet_seq_no st ! c) = nodes st"
    "length (partial_packets st) = classes st" "length (partial_packets st ! c) = nodes st"
    "length (request_class st) = classes st"
  using assms by (simp_all add: queues_shape_def matrix_iff)

lemma mark_drained_eq:
  assumes "queues_shape st" "c < classes st" "s < nodes st"
  shows "mark_drained c s st =
           Inr (if sim_state st = draining \<and> drain_time st < qtime st ! c ! s
                then st\<lparr>qdrained := upd2 (qdrained st) c s True\<rparr> else st)"
proof -
  have "elem2 (qtime st) (int c) (int s) = Inr (qtime st ! c ! s)"
    "put2 (qdrained st) (int c) (int s) True = Inr (upd2 (qdrained st) c s True)"
    using assms by (auto simp: queues_shape_def intro: elem2_matrix put2_matrix)
  then show ?thesis by (simp add: mark_drained_def)
qed

lemma inject_pair_total:
  assumes "issue_frame E" "queues_shape st" "c < classes st" "s < nodes st"
  shows "\<exists>st'. inject_pair E c s st = Some (Inr st') \<and> queues_shape st' \<and>
           same_globals st st' \<and>
           pair_effect st c (slot_of st c s) (slot_of st' c s) \<and>
           (\<forall>c'<classes st. \<forall>s'<nodes st.
              c' \<noteq> c \<or> s' \<noteq> s \<longrightarrow> slot_of st' c' s' = slot_of st c' s')"
proof -
  note len = queues_shape_lengths[OF assms(2,3)]
  have pp: "elem2 (partial_packets st) (int c) (int s) = Inr (partial_packets st ! c ! s)"
    using assms(2-4) by (auto simp: queues_shape_def intro: elem2_matrix)
  have rq: "elem (request_class st) (int c) = Inr (request_class st ! c)"
    using len(11) assms(3) by (simp add: elem_def)
  show ?thesis
  proof (cases "partial_packets st ! c ! s = []")
    case False
    then have "inject_pair E c s st = Some (Inr st)"
      by (simp add: inject_pair_def pp)
    then show ?thesis using False assms(2)
      by (simp add: same_globals_def pair_effect_def slot_of_def)
  next
    case empty: True
    show ?thesis
    proof (cases "0 \<le> request_class st ! c")
      case True
      let ?st1 = "st\<lparr>qtime := upd2 (qtime st) c s (time st)\<rparr>"
      let ?st' = "if sim_state st = draining \<and> drain_time st < time st
                  then ?st1\<lparr>qdrained := upd2 (qdrained st) c s True\<rparr> else ?st1"
      have sh1: "queues_shape ?st1" using assms(2) by (simp add: queues_shape_def)
      have "put2 (qtime st) (int c) (int s) (time st) = Inr (upd2 (qtime st) c s (time st))"
        using assms(2-4) by (auto simp: queues_shape_def intro: put2_matrix)
      moreover have "mark_drained c s ?st1 = Inr ?st'"
        using mark_drained_eq[OF sh1] assms(3,4) len by (simp add: upd2_nth_eq)
      ultimately have r: "inject_pair E c s st = Some (Inr ?st')"
        using empty True by (simp add: inject_pair_def pp rq)
      have "queues_shape ?st'" using assms(2) by (simp add: queues_shape_def)
      moreover have "same_globals st ?st'" by (simp add: same_globals_def)
      moreover have "pair_effect st c (slot_of st c s) (slot_of ?st' c s)"
        using empty True len assms(3,4)
        by (auto simp: pair_effect_def slot_of_def upd2_nth_eq)
      moreover have "\<forall>c'<classes st. \<forall>s'<nodes st.
              c' \<noteq> c \<or> s' \<noteq> s \<longrightarrow> slot_of ?st' c' s' = slot_of st c' s'"
        by (simp add: slot_of_def)
      ultimately show ?thesis using r by blast
    next
      case False
      let ?m = "nat (time st + 1 - qtime st ! c ! s)"
      let ?r = "advance E c s ?m st"
      let ?st1 = "snd ?r"
      let ?st' = "if sim_state ?st1 = draining \<and> drain_time ?st1 < qtime ?st1 ! c ! s
                  then ?st1\<lparr>qdrained := upd2 (qdrained ?st1) c s True\<rparr> else ?st1"
      have eff: "queues_shape ?st1" "same_globals st ?st1" "qdrained ?st1 = qdrained st"
        "qtime ?st1 = upd2 (qtime st) c s (qtime st ! c ! s + int (fst ?r))"
        "\<exists>l. partial_packets ?st1 = upd2 (partial_packets st) c s l"
        "fst ?r \<le> ?m"
        "requests_outstanding ?st1 = requests_outstanding st \<and>
          packet_seq_no ?st1 = packet_seq_no st \<and> fst ?r = ?m
          \<or>
          requests_outstanding ?st1
            = upd2 (requests_outstanding st) c s (requests_outstanding st ! c ! s + 1) \<and>
          packet_seq_no ?st1
            = upd2 (packet_seq_no st) c s (packet_seq_no st ! c ! s + 1) \<and>
          1 \<le> fst ?r"
        using advance_effect[OF assms, of ?m] by simp_all
      have g: "classes ?st1 = classes st" "nodes ?st1 = nodes st" "time ?st1 = time st"
        "drain_time ?st1 = drain_time st" "sim_state ?st1 = sim_state st"
        "request_class ?st1 = request_class st"
        using eff(2) by (simp_all add: same_globals_def)
      have "timer_loop E c s 0 st = Some (Inr (fst ?r, ?st1))"
        using timer_loop_advance[OF assms refl, of 0] by simp
      moreover have "mark_drained c s ?st1 = Inr ?st'"
        using mark_drained_eq[OF eff(1)] assms(3,4) g by simp
      ultimately have r: "inject_pair E c s st = Some (Inr ?st')"
        using empty False by (simp add: inject_pair_def pp rq case_prod_beta)
      have q': "qtime ?st1 ! c ! s = qtime st ! c ! s + int (fst ?r)"
        using eff(4) len assms(3,4) by (simp add: upd2_nth_eq)
      have "queues_shape ?st'" using eff(1) by (simp add: queues_shape_def)
      moreover have "same_globals st ?st'" using eff(2) by (simp add: same_globals_def)
      moreover have "pair_effect st c (slot_of st c s) (slot_of ?st' c s)"
      proof -
        have b: "qtime st ! c ! s + int (fst ?r) \<le> max (qtime st ! c ! s) (time st + 1)"
          using eff(6) by linarith
        have m: "fst ?r = ?m \<Longrightarrow> time st < qtime st ! c ! s + int (fst ?r)" by linarith
        show ?thesis
          using empty False len assms(3,4) eff(3,7) g q' b m
          by (auto simp: pair_effect_def slot_of_def upd2_nth_eq)
      qed
      moreover have "\<forall>c'<classes st. \<forall>s'<nodes st.
              c' \<noteq> c \<or> s' \<noteq> s \<longrightarrow> slot_of ?st' c' s' = slot_of st c' s'"
        using eff(3,4,5,7) by (auto simp: slot_of_def)
      ultimately show ?thesis using r by blast
    qed
  qed
qed


section \<open>The loops of the injection step\<close>

lemma for_loop_total:
  assumes step: "\<And>i st. i < n \<Longrightarrow> I i st \<Longrightarrow> \<exists>st'. body i st = Some (Inr st') \<and> I (Suc i) st'"
    and bound: "\<And>i st. I i st \<Longrightarrow> bound st = n"
    and start: "I i st" "i \<le> n"
  shows "\<exists>st'. for_loop bound body i st = Some (Inr st') \<and> I n st'"
  using start
proof (induction "n - i" arbitrary: i st)
  case 0
  then have "i = n" by simp
  then show ?case using 0 bound[OF "0.prems"(1)]
    by (subst for_loop.simps) simp
next
  case (Suc k)
  then have lt: "i < n" by simp
  obtain st1 where st1: "body i st = Some (Inr st1)" "I (Suc i) st1"
    using step[OF lt Suc.prems(1)] by blast
  have "\<exists>st'. for_loop bound body (Suc i) st1 = Some (Inr st') \<and> I n st'"
    using Suc.hyps(1)[of "Suc i" st1] Suc.hyps(2) st1(2) lt by simp
  then show ?case using lt bound[OF Suc.prems(1)] st1(1)
    by (subst for_loop.simps) simp
qed

lemma pair_effect_cong: "same_globals st st' \<Longrightarrow> pair_effect st' c a b = pair_effect st c a b"
  by (simp add: pair_effect_def same_globals_def)

lemma same_globals_trans:
  "same_globals a b \<Longrightarrow> same_globals b c \<Longrightarrow> same_globals a c"
  by (simp add: same_globals_def)

lemma inner_loop_total:
  assumes "issue_frame E" "queues_shape st0" "c < classes st0"
  shows "\<exists>st'. for_loop nodes (\<lambda>source. inject_pair E c source) 0 st0 = Some (Inr st') \<and>
           queues_shape st' \<and> same_globals st0 st' \<and>
           (\<forall>c'<classes st0. \<forall>s'<nodes st0.
              if c' = c then pair_effect st0 c (slot_of st0 c s') (slot_of st' c s')
              else slot_of st' c' s' = slot_of st0 c' s')"
proof -
  define I where "I = (\<lambda>s st. queues_shape st \<and> same_globals st0 st \<and>
           (\<forall>c'<classes st0. \<forall>s'<nodes st0.
              if c' = c \<and> s' < s then pair_effect st0 c (slot_of st0 c s') (slot_of st c s')
              else slot_of st c' s' = slot_of st0 c' s'))"
  have step: "\<exists>st'. inject_pair E c s st = Some (Inr st') \<and> I (Suc s) st'"
    if "s < nodes st0" "I s st" for s st
  proof -
    have sh: "queues_shape st" and g: "same_globals st0 st"
      and inv: "\<And>c' s'. c' < classes st0 \<Longrightarrow> s' < nodes st0 \<Longrightarrow>
              if c' = c \<and> s' < s then pair_effect st0 c (slot_of st0 c s') (slot_of st c s')
              else slot_of st c' s' = slot_of st0 c' s'"
      using that(2) by (simp_all add: I_def)
    have d: "classes st = classes st0" "nodes st = nodes st0"
      using g by (simp_all add: same_globals_def)
    have cs: "c < classes st" "s < nodes st" using assms(3) that(1) d by simp_all
    obtain st' where st': "inject_pair E c s st = Some (Inr st')" "queues_shape st'"
      "same_globals st st'" "pair_effect st c (slot_of st c s) (slot_of st' c s)"
      and oth: "\<forall>c'<classes st. \<forall>s'<nodes st.
              c' \<noteq> c \<or> s' \<noteq> s \<longrightarrow> slot_of st' c' s' = slot_of st c' s'"
      using inject_pair_total[OF assms(1) sh cs] by blast
    have here: "pair_effect st0 c (slot_of st0 c s) (slot_of st' c s)"
      using st'(4) inv[OF assms(3) that(1)] pair_effect_cong[OF g] by simp
    have "if c' = c \<and> s' < Suc s then pair_effect st0 c (slot_of st0 c s') (slot_of st' c s')
          else slot_of st' c' s' = slot_of st0 c' s'"
      if "c' < classes st0" "s' < nodes st0" for c' s'
    proof (cases "c' = c \<and> s' = s")
      case True
      then show ?thesis using here by simp
    next
      case False
      then have "slot_of st' c' s' = slot_of st c' s'"
        using oth that d by auto
      then show ?thesis using inv[OF that] False by (auto simp: less_Suc_eq)
    qed
    then have "I (Suc s) st'"
      using st'(2,3) g by (auto simp: I_def intro: same_globals_trans)
    then show ?thesis using st'(1) by blast
  qed
  have bound: "nodes st = nodes st0" if "I s st" for s st
    using that by (simp add: I_def same_globals_def)
  have start: "I 0 st0" using assms(2) by (simp add: I_def same_globals_def)
  have "\<exists>st'. for_loop nodes (\<lambda>source. inject_pair E c source) 0 st0 = Some (Inr st')
           \<and> I (nodes st0) st'"
  proof (rule for_loop_total[where I = I and n = "nodes st0"])
    show "\<exists>st'. inject_pair E c i st = Some (Inr st') \<and> I (Suc i) st'"
      if "i < nodes st0" "I i st" for i st
      using step[OF that] .
    show "nodes st = nodes st0" if "I i st" for i st using bound[OF that] .
    show "I 0 st0" by (rule start)
    show "0 \<le> nodes st0" by simp
  qed
  then show ?thesis by (auto simp: I_def)
qed

lemma Inject_total:
  assumes "issue_frame E" "queues_shape st0"
  shows "\<exists>st'. Inject E st0 = Some (Inr st') \<and> queues_shape st' \<and> same_globals st0 st' \<and>
           (\<forall>c<classes st0. \<forall>s<nodes st0.
              pair_effect st0 c (slot_of st0 c s) (slot_of st' c s))"
proof -
  define J where "J = (\<lambda>c st. queues_shape st \<and> same_globals st0 st \<and>
           (\<forall>c'<classes st0. \<forall>s'<nodes st0.
              if c' < c then pair_effect st0 c' (slot_of st0 c' s') (slot_of st c' s')
              else slot_of st c' s' = slot_of st0 c' s'))"
  have step: "\<exists>st'. for_loop nodes (\<lambda>source. inject_pair E c source) 0 st = Some (Inr st')
                 \<and> J (Suc c) st'"
    if "c < classes st0" "J c st" for c st
  proof -
    have sh: "queues_shape st" and g: "same_globals st0 st"
      and inv: "\<And>c' s'. c' < classes st0 \<Longrightarrow> s' < nodes st0 \<Longrightarrow>
              if c' < c then pair_effect st0 c' (slot_of st0 c' s') (slot_of st c' s')
              else slot_of st c' s' = slot_of st0 c' s'"
      using that(2) by (simp_all add: J_def)
    have d: "classes st = classes st0" "nodes st = nodes st0"
      using g by (simp_all add: same_globals_def)
    have c: "c < classes st" using that(1) d by simp
    obtain st' where st':
      "for_loop nodes (\<lambda>source. inject_pair E c source) 0 st = Some (Inr st')"
      "queues_shape st'" "same_globals st st'"
      and eff: "\<forall>c'<classes st. \<forall>s'<nodes st.
              if c' = c then pair_effect st c (slot_of st c s') (slot_of st' c s')
              else slot_of st' c' s' = slot_of st c' s'"
      using inner_loop_total[OF assms(1) sh c] by blast
    have eff': "if c' = c then pair_effect st c (slot_of st c s') (slot_of st' c s')
              else slot_of st' c' s' = slot_of st c' s'"
      if "c' < classes st0" "s' < nodes st0" for c' s'
      using eff that d by simp
    have "if c' < Suc c then pair_effect st0 c' (slot_of st0 c' s') (slot_of st' c' s')
          else slot_of st' c' s' = slot_of st0 c' s'"
      if "c' < classes st0" "s' < nodes st0" for c' s'
    proof (cases "c' = c")
      case True
      then show ?thesis
        using eff'[OF that] inv[OF that] pair_effect_cong[OF g] by simp
    next
      case False
      then show ?thesis
        using eff'[OF that] inv[OF that] by (auto simp: less_Suc_eq)
    qed
    then have "J (Suc c) st'"
      using st'(2,3) g by (auto simp: J_def intro: same_globals_trans)
    then show ?thesis using st'(1) by blast
  qed
  have bound: "classes st = classes st0" if "J c st" for c st
    using that by (simp add: J_def same_globals_def)
  have start: "J 0 st0" using assms(2) by (simp add: J_def same_globals_def)
  have "\<exists>st'. for_loop classes (\<lambda>c. for_loop nodes (\<lambda>source. inject_pair E c source) 0)
              0 st0 = Some (Inr st') \<and> J (classes st0) st'"
  proof (rule for_loop_total[where I = J and n = "classes st0"])
    show "\<exists>st'. for_loop nodes (\<lambda>source. inject_pair E i source) 0 st = Some (Inr st')
            \<and> J (Suc i) st'"
      if "i < classes st0" "J i st" for i st
      using step[OF that] .
    show "classes st = classes st0" if "J i st" for i st using bound[OF that] .
    show "J 0 st0" by (rule start)
    show "0 \<le> classes st0" by simp
  qed
  then show ?thesis by (auto simp: J_def Inject_def)
qed

lemma inject_pair_eq:
  assumes "issue_frame E" "queues_shape st" "c < classes st" "s < nodes st"
  shows "inject_pair E c s st = Some (Inr (pair_step E c s st))"
proof -
  note len = queues_shape_lengths[OF assms(2,3)]
  have pp: "elem2 (partial_packets st) (int c) (int s) = Inr (partial_packets st ! c ! s)"
    using assms(2-4) by (auto simp: queues_shape_def intro: elem2_matrix)
  have rq: "elem (request_class st) (int c) = Inr (request_class st ! c)"
    using len(11) assms(3) by (simp add: elem_def)
  show ?thesis
  proof (cases "partial_packets st ! c ! s = []")
    case False
    then show ?thesis by (simp add: inject_pair_def pp pair_step_def)
  next
    case empty: True
    show ?thesis
    proof (cases "0 \<le> request_class st ! c")
      case True
      let ?st1 = "st\<lparr>qtime := upd2 (qtime st) c s (time st)\<rparr>"
      have sh1: "queues_shape ?st1" using assms(2) by (simp add: queues_shape_def)
      have "put2 (qtime st) (int c) (int s) (time st) = Inr (upd2 (qtime st) c s (time st))"
        using assms(2-4) by (auto simp: queues_shape_def intro: put2_matrix)
      moreover have "mark_drained c s ?st1 = Inr (drain_mark c s ?st1)"
        using mark_drained_eq[OF sh1] assms(3,4) by (simp add: drain_mark_def)
      ultimately show ?thesis
        using empty True by (simp add: inject_pair_def pp rq pair_step_def)
    next
      case False
      let ?m = "nat (time st + 1 - qtime st ! c ! s)"
      let ?r = "advance E c s ?m st"
      have eff: "queues_shape (snd ?r)" "same_globals st (snd ?r)"
        using advance_effect[OF assms, of ?m] by simp_all
      have "timer_loop E c s 0 st = Some (Inr (fst ?r, snd ?r))"
        using timer_loop_advance[OF assms refl, of 0] by simp
      moreover have "mark_drained c s (snd ?r) = Inr (drain_mark c s (snd ?r))"
        using mark_drained_eq[OF eff(1)] assms(3,4) eff(2)
        by (simp add: drain_mark_def same_globals_def)
      ultimately show ?thesis
        using empty False by (simp add: inject_pair_def pp rq pair_step_def case_prod_beta)
    qed
  qed
qed

lemma eager_frame: "issue_frame eager"
  by (auto simp: issue_frame_def eager_def quiet_def)

lemma two_nodes_queues_shape: "queues_shape two_nodes"
  by (simp add: queues_shape_def matrix_def two_nodes_def blank_def)

lemma for_loop_fold:
  assumes step: "\<And>i st. i < n \<Longrightarrow> I st \<Longrightarrow> body i st = Some (Inr (f i st)) \<and> I (f i st)"
    and bound: "\<And>st. I st \<Longrightarrow> bound st = n"
    and start: "I st" "i \<le> n"
  shows "for_loop bound body i st = Some (Inr (fold f [i..<n] st)) \<and> I (fold f [i..<n] st)"
  using start
proof (induction "n - i" arbitrary: i st)
  case 0
  then have "i = n" by simp
  then show ?case using 0 bound[OF "0.prems"(1)]
    by (subst for_loop.simps) simp
next
  case (Suc k)
  then have lt: "i < n" by simp
  note s = step[OF lt Suc.prems(1)]
  have "for_loop bound body (Suc i) (f i st) = Some (Inr (fold f [Suc i..<n] (f i st))) \<and>
        I (fold f [Suc i..<n] (f i st))"
    using Suc.hyps(1)[of "Suc i" "f i st"] Suc.hyps(2) s lt by simp
  then show ?case using lt bound[OF Suc.prems(1)] s
    by (subst for_loop.simps) (simp add: upt_conv_Cons)
qed

lemma pair_step_shape:
  assumes "issue_frame E" "queues_shape st" "c < classes st" "s < nodes st"
  shows "queues_shape (pair_step E c s st)" "same_globals st (pair_step E c s st)"
  using inject_pair_total[OF assms] inject_pair_eq[OF assms] by auto

lemma inner_loop_fold:
  assumes "issue_frame E" "queues_shape st" "c < classes st"
  shows "for_loop nodes (\<lambda>source. inject_pair E c source) 0 st
           = Some (Inr (fold (\<lambda>s. pair_step E c s) [0..<nodes st] st)) \<and>
         queues_shape (fold (\<lambda>s. pair_step E c s) [0..<nodes st] st) \<and>
         same_globals st (fold (\<lambda>s. pair_step E c s) [0..<nodes st] st)"
proof -
  define I where "I = (\<lambda>st'. queues_shape st' \<and> same_globals st st')"
  have "for_loop nodes (\<lambda>source. inject_pair E c source) 0 st
          = Some (Inr (fold (\<lambda>s. pair_step E c s) [0..<nodes st] st)) \<and>
        I (fold (\<lambda>s. pair_step E c s) [0..<nodes st] st)"
  proof (rule for_loop_fold[where I = I and n = "nodes st"])
    fix i st'
    assume i: "i < nodes st" and inv: "I st'"
    have sh: "queues_shape st'" and g: "same_globals st st'" using inv by (simp_all add: I_def)
    have d: "c < classes st'" "i < nodes st'"
      using g assms(3) i by (simp_all add: same_globals_def)
    show "inject_pair E c i st' = Some (Inr (pair_step E c i st')) \<and> I (pair_step E c i st')"
      using inject_pair_eq[OF assms(1) sh d] pair_step_shape[OF assms(1) sh d]
        same_globals_trans[OF g]
      by (simp add: I_def)
  next
    fix st' assume "I st'"
    then show "nodes st' = nodes st" by (simp add: I_def same_globals_def)
  next
    show "I st" using assms(2) by (simp add: I_def same_globals_def)
  qed simp
  then show ?thesis by (simp add: I_def)
qed

lemma Inject_steps:
  assumes "issue_frame E" "queues_shape st"
  shows "Inject E st = Some (Inr (inject_steps E st))"
proof -
  define I where "I = (\<lambda>st'. queues_shape st' \<and> same_globals st st')"
  define f where "f = (\<lambda>c. fold (\<lambda>s. pair_step E c s) [0..<nodes st])"
  have "for_loop classes (\<lambda>c. for_loop nodes (\<lambda>source. inject_pair E c source) 0) 0 st
          = Some (Inr (fold f [0..<classes st] st)) \<and> I (fold f [0..<classes st] st)"
  proof (rule for_loop_fold[where I = I and n = "classes st"])
    fix c st'
    assume c: "c < classes st" and inv: "I st'"
    have sh: "queues_shape st'" and g: "same_globals st st'" using inv by (simp_all add: I_def)
    have d: "c < classes st'" "nodes st' = nodes st"
      using g c by (simp_all add: same_globals_def)
    show "for_loop nodes (\<lambda>source. inject_pair E c source) 0 st' = Some (Inr (f c st')) \<and>
          I (f c st')"
      using inner_loop_fold[OF assms(1) sh d(1)] same_globals_trans[OF g]
      by (simp add: I_def f_def d(2))
  next
    fix st' assume "I st'"
    then show "classes st' = classes st" by (simp add: I_def same_globals_def)
  next
    show "I st" using assms(2) by (simp add: I_def same_globals_def)
  qed simp
  then show ?thesis by (simp add: Inject_def inject_steps_def f_def)
qed

text \<open>
  Claim C3. A call of \<open>_Inject\<close> returns the state that the step worded above gives when
  it is taken for every class and source in turn, and the body of the loops is that step:
  a pair with partial packets is left as it is; for an empty pair of a reply class the
  timer is set to the current cycle and nothing is issued; for an empty pair of any other
  class the timer is incremented while it is at most the current cycle, one issuance is
  attempted per increment, and the first success ends the loop and adds one to the pair's
  outstanding counter and sequence number. On every pair the call has the effect worded
  above.
\<close>

theorem Inject_pairs:
  assumes "issue_frame E" "queues_shape st"
  shows "Inject E st = Some (Inr (inject_steps E st)) \<and>
         (\<forall>c<classes st. \<forall>s<nodes st.
            inject_pair E c s st = Some (Inr (pair_step E c s st)) \<and>
            (\<forall>k. timer_loop E c s k st =
                   Some (Inr (k + fst (advance E c s (nat (time st + 1 - qtime st ! c ! s)) st),
                              snd (advance E c s (nat (time st + 1 - qtime st ! c ! s)) st))))) \<and>
         (\<forall>c<classes st. \<forall>s<nodes st.
            pair_effect st c (slot_of st c s) (slot_of (inject_steps E st) c s))"
proof -
  have "inject_pair E c s st = Some (Inr (pair_step E c s st))"
    if "c < classes st" "s < nodes st" for c s
    using inject_pair_eq[OF assms that] .
  moreover have "timer_loop E c s k st =
                   Some (Inr (k + fst (advance E c s (nat (time st + 1 - qtime st ! c ! s)) st),
                              snd (advance E c s (nat (time st + 1 - qtime st ! c ! s)) st)))"
    if "c < classes st" "s < nodes st" for c s k
    using timer_loop_advance[OF assms that refl] .
  moreover note Inject_steps[OF assms]
  moreover have "\<forall>c<classes st. \<forall>s<nodes st.
               pair_effect st c (slot_of st c s) (slot_of (inject_steps E st) c s)"
    using Inject_total[OF assms] Inject_steps[OF assms] by auto
  ultimately show ?thesis by blast
qed

lemmas run_defs = Inject_def for_loop.simps inject_pair_def timer_loop.simps mark_drained_def
  access_defs two_nodes_def blank_def eager_def quiet_def

lemma Inject_eager_two_nodes:
  "Inject eager two_nodes =
     Some (Inr (two_nodes\<lparr>requests_outstanding := [[1, 1], [0, 0]],
                          packet_seq_no := [[1, 1], [0, 0]],
                          partial_packets :=
                            [[[a_flit\<lparr>dest := 0, ttime := 0, atime := 0, tid := 0\<rparr>],
                              [a_flit\<lparr>src := 1, dest := 0, ttime := 0, atime := 0, tid := 0\<rparr>]],
                             [[], []]],
                          qtime := [[1, 1], [0, 0]]\<rparr>))"
  by (simp add: run_defs a_flit_def upd2_def)


lemma inject_steps_eager_two_nodes:
  "inject_steps eager two_nodes =
     two_nodes\<lparr>requests_outstanding := [[1, 1], [0, 0]],
               packet_seq_no := [[1, 1], [0, 0]],
               partial_packets :=
                 [[[a_flit\<lparr>dest := 0, ttime := 0, atime := 0, tid := 0\<rparr>],
                   [a_flit\<lparr>src := 1, dest := 0, ttime := 0, atime := 0, tid := 0\<rparr>]],
                  [[], []]],
               qtime := [[1, 1], [0, 0]]\<rparr>"
  by (simp add: inject_steps_def pair_step_def attempt_def count_issue_def drain_mark_def
      two_nodes_def blank_def eager_def quiet_def a_flit_def upd2_def numeral_2_eq_2 upt_rec)

theorem Inject_pairs_witness:
  "Inject eager two_nodes = Some (Inr (inject_steps eager two_nodes)) \<and>
   requests_outstanding (inject_steps eager two_nodes) = [[1, 1], [0, 0]] \<and>
   packet_seq_no (inject_steps eager two_nodes) = [[1, 1], [0, 0]] \<and>
   qtime (inject_steps eager two_nodes) = [[1, 1], [0, 0]] \<and>
   inject_pair eager 0 0 two_nodes = Some (Inr (pair_step eager 0 0 two_nodes)) \<and>
   timer_loop eager 0 0 0 two_nodes
     = Some (Inr (fst (advance eager 0 0 1 two_nodes), snd (advance eager 0 0 1 two_nodes))) \<and>
   pair_effect two_nodes 1 (slot_of two_nodes 1 0) (slot_of (inject_steps eager two_nodes) 1 0)"
proof -
  have d: "(0::nat) < classes two_nodes" "(1::nat) < classes two_nodes"
    "(0::nat) < nodes two_nodes"
    and m: "nat (time two_nodes + 1 - qtime two_nodes ! 0 ! 0) = 1"
    by (simp_all add: two_nodes_def blank_def)
  note inst = Inject_pairs[OF eager_frame two_nodes_queues_shape]
  have "Inject eager two_nodes = Some (Inr (inject_steps eager two_nodes))"
    using inst by blast
  moreover have "requests_outstanding (inject_steps eager two_nodes) = [[1, 1], [0, 0]]"
    "packet_seq_no (inject_steps eager two_nodes) = [[1, 1], [0, 0]]"
    "qtime (inject_steps eager two_nodes) = [[1, 1], [0, 0]]"
    by (simp_all add: inject_steps_eager_two_nodes)
  moreover have "inject_pair eager 0 0 two_nodes = Some (Inr (pair_step eager 0 0 two_nodes))"
    using inst d by blast
  moreover have "timer_loop eager 0 0 0 two_nodes
     = Some (Inr (fst (advance eager 0 0 1 two_nodes), snd (advance eager 0 0 1 two_nodes)))"
    using inst[THEN conjunct2, THEN conjunct1, rule_format, OF d(1) d(3), THEN conjunct2,
        rule_format, of 0]
    by (simp add: m)
  moreover have "pair_effect two_nodes 1 (slot_of two_nodes 1 0)
                   (slot_of (inject_steps eager two_nodes) 1 0)"
    using inst d by blast
  ultimately show ?thesis by blast
qed

text \<open>
  Claim C10. Every call of \<open>_Inject\<close> returns. For a pair of a class that is no reply
  class, the timer loop runs at most \<open>max 0 (time - qtime + 1)\<close> times, where
  \<open>qtime\<close> is the timer at the start of the loop, and each run adds one to the timer;
  at the end of the call the timer of such a pair with no partial packet is not smaller
  than at the start.
\<close>

theorem Inject_terminates:
  assumes "issue_frame E" "queues_shape st"
  shows "(\<exists>st'. Inject E st = Some (Inr st') \<and>
            (\<forall>c<classes st. \<forall>s<nodes st.
               partial_packets st ! c ! s = [] \<and> request_class st ! c < 0
               \<longrightarrow> qtime st ! c ! s \<le> qtime st' ! c ! s)) \<and>
         (\<forall>c<classes st. \<forall>s<nodes st.
            \<exists>n st1. timer_loop E c s 0 st = Some (Inr (n, st1)) \<and>
                    int n \<le> max 0 (time st - qtime st ! c ! s + 1) \<and>
                    qtime st1 ! c ! s = qtime st ! c ! s + int n)"
proof -
  obtain st' where st': "Inject E st = Some (Inr st')"
    and eff: "\<forall>c<classes st. \<forall>s<nodes st. pair_effect st c (slot_of st c s) (slot_of st' c s)"
    using Inject_total[OF assms] by blast
  have "qtime st ! c ! s \<le> qtime st' ! c ! s"
    if "c < classes st" "s < nodes st" "partial_packets st ! c ! s = []"
      "request_class st ! c < 0" for c s
    using eff[rule_format, OF that(1,2)] that(3,4)
    by (simp add: pair_effect_def slot_of_def)
  then have 1: "\<exists>st'. Inject E st = Some (Inr st') \<and>
            (\<forall>c<classes st. \<forall>s<nodes st.
               partial_packets st ! c ! s = [] \<and> request_class st ! c < 0
               \<longrightarrow> qtime st ! c ! s \<le> qtime st' ! c ! s)"
    using st' by blast
  have 2: "\<exists>n st1. timer_loop E c s 0 st = Some (Inr (n, st1)) \<and>
                    int n \<le> max 0 (time st - qtime st ! c ! s + 1) \<and>
                    qtime st1 ! c ! s = qtime st ! c ! s + int n"
    if "c < classes st" "s < nodes st" for c s
  proof -
    let ?m = "nat (time st + 1 - qtime st ! c ! s)"
    let ?r = "advance E c s ?m st"
    have "timer_loop E c s 0 st = Some (Inr (fst ?r, snd ?r))"
      using timer_loop_advance[OF assms that refl, of 0] by simp
    moreover have "fst ?r \<le> ?m"
      "qtime (snd ?r) = upd2 (qtime st) c s (qtime st ! c ! s + int (fst ?r))"
      using advance_effect[OF assms that, of ?m] by simp_all
    moreover have "upd2 (qtime st) c s x ! c ! s = x" for x
      using queues_shape_lengths[OF assms(2) that(1)] that by (simp add: upd2_nth_eq)
    ultimately show ?thesis by (intro exI[of _ "fst ?r"] exI[of _ "snd ?r"]) auto
  qed
  show ?thesis using 1 2 by blast
qed

theorem Inject_terminates_witness:
  "(\<exists>st'. Inject eager two_nodes = Some (Inr st')) \<and>
   (\<exists>n st1. timer_loop eager 0 0 0 two_nodes = Some (Inr (n, st1)) \<and> int n \<le> 1 \<and>
            qtime st1 ! 0 ! 0 = int n)"
proof -
  have d: "(0::nat) < classes two_nodes" "(0::nat) < nodes two_nodes"
    and m: "time two_nodes = 0" "qtime two_nodes ! 0 ! 0 = 0"
    by (simp_all add: two_nodes_def blank_def)
  note inst = Inject_terminates[OF eager_frame two_nodes_queues_shape]
  have "\<exists>st'. Inject eager two_nodes = Some (Inr st')" using inst by blast
  moreover have "\<exists>n st1. timer_loop eager 0 0 0 two_nodes = Some (Inr (n, st1)) \<and>
      int n \<le> max 0 (time two_nodes - qtime two_nodes ! 0 ! 0 + 1) \<and>
      qtime st1 ! 0 ! 0 = qtime two_nodes ! 0 ! 0 + int n"
    using inst[THEN conjunct2, rule_format, OF d] .
  ultimately show ?thesis by (simp add: m)
qed

section \<open>The drained flags\<close>

lemma drained_le_refl [simp]: "drained_le st st"
  by (simp add: drained_le_def)

lemma drained_le_trans: "drained_le a b \<Longrightarrow> drained_le b c \<Longrightarrow> drained_le a c"
  by (simp add: drained_le_def)

lemma drained_le_eq: "qdrained st' = qdrained st \<Longrightarrow> drained_le st st'"
  by (simp add: drained_le_def)

lemma put2_True_le:
  assumes "put2 qd c s True = Inr qd'" "elem2 qd c' s' = Inr True"
  shows "elem2 qd' c' s' = Inr True"
  using assms
  by (auto simp: access_defs seq_def nth_list_update split: if_splits sum.splits)

lemma mark_drained_le: "mark_drained c s st = Inr st' \<Longrightarrow> drained_le st st'"
  by (auto simp: mark_drained_def drained_le_def seq_def split: if_splits sum.splits
      intro: put2_True_le)

lemma timer_loop_qdrained:
  "timer_loop E c s n st = Some r \<Longrightarrow> keeps_qdrained E \<Longrightarrow> r = Inr (n', st')
   \<Longrightarrow> qdrained st' = qdrained st"
proof (induction arbitrary: n' st' rule: timer_loop.raw_induct[rotated -1, consumes 1])
  case (1 loop E c s n st r)
  have k: "qdrained (snd (IssuePacket E source c' st0)) = qdrained st0" for source c' st0
    using "1.prems"(1) by (simp add: keeps_qdrained_def)
  note IH = "1.IH"[OF _ "1.prems"(1) refl]
  show ?case
  proof (cases "elem2 (qtime st) (int c) (int s)")
    case (Inl e)
    then show ?thesis using "1.hyps" "1.prems"(2) by simp
  next
    case (Inr q)
    show ?thesis
    proof (cases "q \<le> time st")
      case False
      then show ?thesis using "1.hyps" "1.prems"(2) Inr by simp
    next
      case True
      show ?thesis
      proof (cases "put2 (qtime st) (int c) (int s) (q + 1)")
        case (Inl e)
        then show ?thesis using "1.hyps" "1.prems"(2) Inr True by simp
      next
        case qt: (Inr qt)
        obtain ok st1 where i: "IssuePacket E (int s) (int c) (st\<lparr>qtime := qt\<rparr>) = (ok, st1)"
          by (cases "IssuePacket E (int s) (int c) (st\<lparr>qtime := qt\<rparr>)")
        have q1: "qdrained st1 = qdrained st"
          using k[of "int s" "int c" "st\<lparr>qtime := qt\<rparr>"] i by simp
        show ?thesis
        proof (cases ok)
          case True
          then show ?thesis using "1.hyps" "1.prems"(2) Inr \<open>q \<le> time st\<close> qt i q1
            by (auto simp: seq_def split: sum.splits)
        next
          case False
          then have "loop E c s (Suc n) st1 = Some (Inr (n', st'))"
            using "1.hyps" "1.prems"(2) Inr \<open>q \<le> time st\<close> qt i by simp
          from IH[OF this] q1 show ?thesis by simp
        qed
      qed
    qed
  qed
qed

lemma for_loop_rel:
  assumes "for_loop bound body i st = Some r"
    and "\<And>i st st'. body i st = Some (Inr st') \<Longrightarrow> R st st'"
    and "\<And>st. R st st" "\<And>a b c. R a b \<Longrightarrow> R b c \<Longrightarrow> R a c"
    and "r = Inr st'"
  shows "R st st'"
  using assms
proof (induction arbitrary: st' rule: for_loop.raw_induct[rotated -1, consumes 1])
  case (1 loop bound body i st r)
  note IH = "1.IH"[OF _ "1.prems"(1,2,3) refl]
  show ?case
  proof (cases "i < bound st")
    case False
    then show ?thesis using "1.hyps" "1.prems"(2,4) by simp
  next
    case True
    then obtain st1 where b: "body i st = Some (Inr st1)"
      and l: "loop bound body (Suc i) st1 = Some (Inr st')"
      using "1.hyps" "1.prems"(4) by (auto split: option.splits sum.splits)
    from "1.prems"(3)[OF "1.prems"(1)[OF b] IH[OF l]] show ?thesis .
  qed
qed


lemma inject_pair_le:
  assumes "keeps_qdrained E" "inject_pair E c s st = Some (Inr st')"
  shows "drained_le st st'"
proof (cases "elem2 (partial_packets st) (int c) (int s)")
  case (Inl e)
  then show ?thesis using assms(2) by (simp add: inject_pair_def)
next
  case pp: (Inr pp)
  show ?thesis
  proof (cases "pp = []")
    case False
    then show ?thesis using assms(2) pp by (simp add: inject_pair_def)
  next
    case True
    show ?thesis
    proof (cases "elem (request_class st) (int c)")
      case (Inl e)
      then show ?thesis using assms(2) pp True by (simp add: inject_pair_def)
    next
      case rq: (Inr request)
      show ?thesis
      proof (cases "0 \<le> request")
        case ge: True
        then obtain qt where "put2 (qtime st) (int c) (int s) (time st) = Inr qt"
          "mark_drained c s (st\<lparr>qtime := qt\<rparr>) = Inr st'"
          using assms(2) pp True rq
          by (auto simp: inject_pair_def seq_def split: sum.splits)
        from mark_drained_le[OF this(2)] show ?thesis by (simp add: drained_le_def)
      next
        case False
        then obtain n st1 where t: "timer_loop E c s 0 st = Some (Inr (n, st1))"
          and m: "mark_drained c s st1 = Inr st'"
          using assms(2) pp True rq
          by (auto simp: inject_pair_def split: option.splits sum.splits)
        have "qdrained st1 = qdrained st"
          using timer_loop_qdrained[OF t assms(1) refl] .
        then show ?thesis using mark_drained_le[OF m] by (simp add: drained_le_def)
      qed
    qed
  qed
qed

lemma Inject_le:
  assumes "keeps_qdrained E" "Inject E st = Some (Inr st')"
  shows "drained_le st st'"
proof -
  have inner: "drained_le a b"
    if "for_loop nodes (\<lambda>source. inject_pair E c source) 0 a = Some (Inr b)" for c a b
    using that
    by (rule for_loop_rel[where R = drained_le])
       (auto intro: inject_pair_le[OF assms(1)] drained_le_trans)
  show ?thesis
    using assms(2) unfolding Inject_def
    by (rule for_loop_rel[where R = drained_le]) (auto intro: inner drained_le_trans)
qed

lemma RetirePacket_qdrained:
  assumes "keeps_qdrained E" "RetirePacket E st head tail dst = Inr st'"
  shows "qdrained st' = qdrained st"
proof -
  have g: "qdrained (GeneratePacket E p st0) = qdrained st0" for p st0
    using assms(1) by (simp add: keeps_qdrained_def)
  show ?thesis
    using assms(2)
    by (auto simp: RetirePacket_def seq_def Let_def g split: sum.splits if_splits prod.splits)
qed

lemma clear_loop_qdrained: "clear_loop cs st = Inr st' \<Longrightarrow> qdrained st' = qdrained st"
  by (induction cs arbitrary: st) (auto split: sum.splits)

lemma ClearStats_qdrained:
  assumes "keeps_qdrained E" "ClearStats E st = Inr st'"
  shows "qdrained st' = qdrained st"
  using assms clear_loop_qdrained
  by (fastforce simp: ClearStats_def seq_def keeps_qdrained_def split: sum.splits)

lemma overall_loop_qdrained: "overall_loop E cs st = Inr st' \<Longrightarrow> qdrained st' = qdrained st"
  by (induction cs arbitrary: st) (auto split: sum.splits if_splits)

lemma UpdateOverallStats_qdrained:
  assumes "keeps_qdrained E" "UpdateOverallStats E st = Inr st'"
  shows "qdrained st' = qdrained st"
  using assms overall_loop_qdrained[of E "[0..<classes (base_UpdateOverallStats E st)]"
      "base_UpdateOverallStats E st" st']
  by (simp add: UpdateOverallStats_def Let_def keeps_qdrained_def)

lemma step_le:
  assumes "keeps_qdrained E" "step E p st = Some (Inr st')"
  shows "drained_le st st'"
proof (cases p)
  case Inject_op
  then show ?thesis using assms Inject_le by (simp add: step_def)
next
  case (RetirePacket_op head tail dst)
  then show ?thesis using assms RetirePacket_qdrained[of E st head tail dst st']
    by (simp add: step_def drained_le_eq)
next
  case ClearStats_op
  then show ?thesis using assms ClearStats_qdrained[of E st st']
    by (simp add: step_def drained_le_eq)
next
  case UpdateOverallStats_op
  then show ?thesis using assms UpdateOverallStats_qdrained[of E st st']
    by (simp add: step_def drained_le_eq)
qed

lemma run_le:
  assumes "keeps_qdrained E"
  shows "run E ps st = Some (Inr st') \<Longrightarrow> drained_le st st'"
proof (induction ps arbitrary: st)
  case Nil
  then show ?case by simp
next
  case (Cons p ps)
  then obtain st1 where s: "step E p st = Some (Inr st1)" and r: "run E ps st1 = Some (Inr st')"
    by (auto split: option.splits sum.splits)
  from drained_le_trans[OF step_le[OF assms s] Cons.IH[OF r]] show ?case .
qed

lemma fold_update_rows:
  "n \<le> length q \<Longrightarrow> fold (\<lambda>c q. q[c := v]) [0..<n] q = replicate n v @ drop n q"
proof (induction n)
  case 0
  then show ?case by simp
next
  case (Suc n)
  then have n: "n < length q" by simp
  have d: "drop n q = q ! n # drop (Suc n) q" using n by (simp add: Cons_nth_drop_Suc)
  have "(replicate n v @ drop n q)[n := v] = replicate n v @ (drop n q)[0 := v]"
    by (simp add: list_update_append)
  also have "\<dots> = replicate n v @ (v # drop (Suc n) q)" by (subst d) simp
  also have "\<dots> = replicate (Suc n) v @ drop (Suc n) q"
    by (simp add: replicate_app_Cons_same)
  finally have u: "(replicate n v @ drop n q)[n := v] = replicate (Suc n) v @ drop (Suc n) q" .
  have "fold (\<lambda>c q. q[c := v]) [0..<Suc n] q = (fold (\<lambda>c q. q[c := v]) [0..<n] q)[n := v]"
    by simp
  also have "\<dots> = (replicate n v @ drop n q)[n := v]" using Suc.IH n by simp
  finally show ?case unfolding u .
qed

lemma reset_loop_eq:
  assumes "\<forall>c\<in>set cs. c < length (qtime st) \<and> c < length (qdrained st)"
  shows "reset_loop E cs st =
           Inr (st\<lparr>qtime := fold (\<lambda>c q. q[c := replicate (nodes st) 0]) cs (qtime st),
                    qdrained := fold (\<lambda>c q. q[c := replicate (nodes st) False]) cs (qdrained st),
                    ext := fold (\<lambda>c. pattern_reset E (int c)) cs (ext st)\<rparr>)"
  using assms
proof (induction cs arbitrary: st)
  case Nil
  then show ?case by simp
next
  case (Cons c cs)
  let ?st1 = "st\<lparr>qtime := (qtime st)[c := replicate (nodes st) 0],
                   qdrained := (qdrained st)[c := replicate (nodes st) False],
                   ext := pattern_reset E (int c) (ext st)\<rparr>"
  have r: "reset_loop E (c # cs) st = reset_loop E cs ?st1"
    using Cons.prems by (simp add: access_defs)
  show ?case unfolding r using Cons.IH[of ?st1] Cons.prems by simp
qed

lemma ResetSim_eq:
  assumes "length (qtime (base_ResetSim E st)) = classes (base_ResetSim E st)"
    "length (qdrained (base_ResetSim E st)) = classes (base_ResetSim E st)"
  shows "ResetSim E st = Inr (reset_queues E (base_ResetSim E st))"
proof -
  let ?b = "base_ResetSim E st"
  have "reset_loop E [0..<classes ?b] ?b = Inr (reset_queues E ?b)"
    using assms
    by (subst reset_loop_eq) (simp_all add: reset_queues_def fold_update_rows)
  then show ?thesis by (simp add: ResetSim_def Let_def)
qed

text \<open>
  Claim C5. A drained flag that is set stays set through every run of the operations
  other than \<open>_ResetSim\<close>. A call of \<open>_Inject\<close> sets the flag of a pair only when the
  simulation is draining, the pair has no partial packet and its timer is past the drain
  deadline. \<open>_ResetSim\<close> returns the state of the base engine's reset with every timer
  set to zero, every flag set to false and every class's traffic pattern reset, and with
  nothing else changed.
\<close>

theorem qdrained_monotone:
  assumes "keeps_qdrained E"
  shows "(\<forall>ps st st'. run E ps st = Some (Inr st') \<longrightarrow> drained_le st st') \<and>
         (\<forall>st :: 'x state. issue_frame E \<and> queues_shape st \<longrightarrow>
            (\<exists>st'. Inject E st = Some (Inr st') \<and>
               (\<forall>c<classes st. \<forall>s<nodes st.
                  qdrained st' ! c ! s \<and> \<not> qdrained st ! c ! s \<longrightarrow>
                  sim_state st = draining \<and> partial_packets st ! c ! s = [] \<and>
                  drain_time st < qtime st' ! c ! s))) \<and>
         (\<forall>st. length (qtime (base_ResetSim E st)) = classes (base_ResetSim E st) \<and>
               length (qdrained (base_ResetSim E st)) = classes (base_ResetSim E st) \<longrightarrow>
            ResetSim E st = Inr (reset_queues E (base_ResetSim E st)) \<and>
            classes (reset_queues E (base_ResetSim E st)) = classes (base_ResetSim E st) \<and>
            nodes (reset_queues E (base_ResetSim E st)) = nodes (base_ResetSim E st) \<and>
            (\<forall>c<classes (base_ResetSim E st). \<forall>s<nodes (base_ResetSim E st).
               qtime (reset_queues E (base_ResetSim E st)) ! c ! s = 0 \<and>
               \<not> qdrained (reset_queues E (base_ResetSim E st)) ! c ! s))"
proof (intro conjI allI impI)
  fix ps st st'
  assume "run E ps st = Some (Inr st')"
  then show "drained_le st st'" by (rule run_le[OF assms])
next
  fix st :: "'x state"
  assume a: "issue_frame E \<and> queues_shape st"
  then obtain st' where st': "Inject E st = Some (Inr st')"
    and eff: "\<forall>c<classes st. \<forall>s<nodes st. pair_effect st c (slot_of st c s) (slot_of st' c s)"
    using Inject_total[of E st] by blast
  have "sim_state st = draining \<and> partial_packets st ! c ! s = [] \<and>
        drain_time st < qtime st' ! c ! s"
    if "c < classes st" "s < nodes st" "qdrained st' ! c ! s \<and> \<not> qdrained st ! c ! s" for c s
    using eff[rule_format, OF that(1,2)] that(3)
    by (auto simp: pair_effect_def slot_of_def split: if_splits)
  then show "\<exists>st'. Inject E st = Some (Inr st') \<and>
               (\<forall>c<classes st. \<forall>s<nodes st.
                  qdrained st' ! c ! s \<and> \<not> qdrained st ! c ! s \<longrightarrow>
                  sim_state st = draining \<and> partial_packets st ! c ! s = [] \<and>
                  drain_time st < qtime st' ! c ! s)"
    using st' by blast
next
  fix st
  assume "length (qtime (base_ResetSim E st)) = classes (base_ResetSim E st) \<and>
               length (qdrained (base_ResetSim E st)) = classes (base_ResetSim E st)"
  then show "ResetSim E st = Inr (reset_queues E (base_ResetSim E st))"
    using ResetSim_eq[of E st] by blast
next
  fix st
  show "classes (reset_queues E (base_ResetSim E st)) = classes (base_ResetSim E st)"
    by (simp add: reset_queues_def)
next
  fix st
  show "nodes (reset_queues E (base_ResetSim E st)) = nodes (base_ResetSim E st)"
    by (simp add: reset_queues_def)
next
  fix st c s
  assume "c < classes (base_ResetSim E st)" "s < nodes (base_ResetSim E st)"
  then show "qtime (reset_queues E (base_ResetSim E st)) ! c ! s = 0"
    by (simp add: reset_queues_def)
next
  fix st c s
  assume "c < classes (base_ResetSim E st)" "s < nodes (base_ResetSim E st)"
  then show "\<not> qdrained (reset_queues E (base_ResetSim E st)) ! c ! s"
    by (simp add: reset_queues_def)
qed

lemma quiet_frame: "issue_frame quiet"
proof -
  have "\<exists>l. partial_packets st = upd2 (partial_packets st) c s l" for st :: "int state" and c s
    by (rule exI[of _ "partial_packets st ! c ! s"]) simp
  then show ?thesis by (simp add: issue_frame_def quiet_def)
qed

lemma quiet_keeps_qdrained: "keeps_qdrained quiet"
  by (simp add: keeps_qdrained_def quiet_def)

lemma run_quiet_draining:
  "run quiet [Inject_op, ClearStats_op] draining_nodes =
     Some (Inr (draining_nodes\<lparr>qtime := [[3, 3], [2, 2]],
                               qdrained := [[True, True], [True, True]]\<rparr>))"
  by (simp add: step_def ClearStats_def Inject_def for_loop.simps inject_pair_def
      timer_loop.simps mark_drained_def access_defs draining_nodes_def two_nodes_def blank_def
      quiet_def upd2_def numeral_2_eq_2 upt_rec)

theorem qdrained_monotone_witness:
  "drained_le draining_nodes
     (draining_nodes\<lparr>qtime := [[3, 3], [2, 2]], qdrained := [[True, True], [True, True]]\<rparr>) \<and>
   (\<exists>st'. Inject quiet draining_nodes = Some (Inr st')) \<and>
   ResetSim quiet draining_nodes
     = Inr (draining_nodes\<lparr>qtime := [[0, 0], [0, 0]],
                           qdrained := [[False, False], [False, False]]\<rparr>)"
proof -
  note inst = qdrained_monotone[OF quiet_keeps_qdrained]
  have sh: "queues_shape draining_nodes"
    by (simp add: queues_shape_def matrix_def draining_nodes_def two_nodes_def blank_def)
  have b: "length (qtime (base_ResetSim quiet draining_nodes))
             = classes (base_ResetSim quiet draining_nodes) \<and>
           length (qdrained (base_ResetSim quiet draining_nodes))
             = classes (base_ResetSim quiet draining_nodes)"
    by (simp add: draining_nodes_def two_nodes_def blank_def quiet_def)
  have "drained_le draining_nodes
     (draining_nodes\<lparr>qtime := [[3, 3], [2, 2]], qdrained := [[True, True], [True, True]]\<rparr>)"
    using inst[THEN conjunct1, rule_format, OF run_quiet_draining] .
  moreover have "\<exists>st'. Inject quiet draining_nodes = Some (Inr st')"
    using inst[THEN conjunct2, THEN conjunct1, rule_format, OF conjI[OF quiet_frame sh]]
    by blast
  moreover have "ResetSim quiet draining_nodes
     = Inr (draining_nodes\<lparr>qtime := [[0, 0], [0, 0]],
                           qdrained := [[False, False], [False, False]]\<rparr>)"
  proof -
    have "reset_queues quiet (base_ResetSim quiet draining_nodes)
            = draining_nodes\<lparr>qtime := [[0, 0], [0, 0]],
                             qdrained := [[False, False], [False, False]]\<rparr>"
      by (simp add: reset_queues_def draining_nodes_def two_nodes_def blank_def quiet_def
          numeral_2_eq_2)
    then show ?thesis
      using inst[THEN conjunct2, THEN conjunct2, rule_format, OF b] by simp
  qed
  ultimately show ?thesis by blast
qed

section \<open>A trial with a chain of reply classes\<close>

lemmas trial_defs = trial_collab_def trial_issue_def trial_generate_def trial_random_def

lemma chain3_constructed:
  "init_request_class (classes chain3) (reply_class chain3) = Inr (request_class chain3)"
  by (simp add: init_request_class_def chain3_def request_class_loop.simps resize_def
      access_defs numeral_3_eq_3)

lemma chain3_start: "trial_start chain3"
  using chain3_constructed
  by (simp add: trial_start_def shape_def matrix_def chain3_def
      less_Suc_eq numeral_3_eq_3 numeral_2_eq_2)

lemma chain3_inject:
  "Inject trial_collab chain3 =
     Some (Inr (chain3\<lparr>requests_outstanding := [[1, 0], [0, 0], [0, 0]],
                       packet_seq_no := [[1, 0], [0, 0], [0, 0]],
                       qtime := [[1, 1], [0, 0], [0, 0]],
                       ext := \<lparr>pool = [\<lparr>g_source = 0, g_dest = 1, g_size = 1, g_cl = 0,
                                       g_time = 0, g_tid = - 1, g_ttime = - 1\<rparr>],
                               script = [], draws = []\<rparr>\<rparr>))"
  by (simp add: Inject_def for_loop.simps inject_pair_def timer_loop.simps mark_drained_def
      access_defs chain3_def trial_defs)

text \<open>
  With three classes where class 1 replies to class 0 and class 2 replies to class 1, a
  configuration the constructor accepts, one transaction drives a counter below zero.
  \<open>_Inject\<close> issues a packet of class 0 from node 0 to node 1 and increments the
  counter of (class 0, node 0). Its retirement at node 1 generates the reply of class 1,
  whose retirement at node 0 generates a reply of class 2, since class 1 has a reply class
  too. The retirement of that packet at node 1 is terminal and decrements the counter of
  its request class at its destination, (class 1, node 1), which no issuance has
  incremented.
\<close>

theorem outstanding_negative_in_chain:
  "trial_start chain3 \<and> chain3_end \<in> reachable chain3 \<and>
   requests_outstanding chain3_end ! 1 ! 1 = - 1"
proof -
  define p0 where "p0 = \<lparr>g_source = 0, g_dest = 1, g_size = 1, g_cl = 0,
                          g_time = 0, g_tid = - 1, g_ttime = - 1\<rparr>"
  define p1 where "p1 = \<lparr>g_source = 1, g_dest = 0, g_size = 1, g_cl = 1,
                          g_time = 5, g_tid = - 1, g_ttime = 0\<rparr>"
  define p2 where "p2 = \<lparr>g_source = 0, g_dest = 1, g_size = 1, g_cl = 2,
                          g_time = 9, g_tid = - 1, g_ttime = 0\<rparr>"
  define f0 where "f0 = \<lparr>cl = 0, src = 0, dest = 1, ttime = 0, atime = 4, tid = - 1,
                          watch = False, record_flag = False\<rparr>"
  define f1 where "f1 = \<lparr>cl = 1, src = 1, dest = 0, ttime = 0, atime = 8, tid = - 1,
                          watch = False, record_flag = False\<rparr>"
  define f2 where "f2 = \<lparr>cl = 2, src = 0, dest = 1, ttime = 0, atime = 12, tid = - 1,
                          watch = False, record_flag = False\<rparr>"
  define s1 where "s1 = chain3\<lparr>requests_outstanding := [[1, 0], [0, 0], [0, 0]],
                       packet_seq_no := [[1, 0], [0, 0], [0, 0]],
                       qtime := [[1, 1], [0, 0], [0, 0]],
                       ext := \<lparr>pool = [p0], script = [], draws = []\<rparr>\<rparr>"
  define s2 where "s2 = s1\<lparr>packet_seq_no := [[1, 1], [0, 0], [0, 0]],
                       ext := \<lparr>pool = [p1], script = [], draws = []\<rparr>\<rparr>"
  define s3 where "s3 = s2\<lparr>packet_seq_no := [[1, 1], [1, 0], [0, 0]],
                       ext := \<lparr>pool = [p2], script = [], draws = []\<rparr>\<rparr>"
  define s4 where "s4 = s3\<lparr>requests_outstanding := [[1, 0], [0, - 1], [0, 0]],
                       ext := \<lparr>pool = [], script = [], draws = []\<rparr>\<rparr>"
  have r1: "s1 \<in> reachable chain3"
    using reachable.inject[OF reachable.start chain3_inject] by (simp add: s1_def p0_def)
  have "RetirePacket trial_collab (s1\<lparr>ext := (ext s1)\<lparr>pool := remove1 p0 (pool (ext s1))\<rparr>\<rparr>)
          f0 f0 (g_dest p0) = Inr s2"
    by (simp add: RetirePacket_def GetNextPacketSize_def access_defs trial_defs
        s1_def s2_def chain3_def p0_def p1_def f0_def)
  then have r2: "s2 \<in> reachable chain3"
    by (rule reachable.retire[OF r1, where p = p0 and head = f0 and tail = f0, rotated 2])
       (simp_all add: s1_def delivered_def p0_def f0_def)
  have "RetirePacket trial_collab (s2\<lparr>ext := (ext s2)\<lparr>pool := remove1 p1 (pool (ext s2))\<rparr>\<rparr>)
          f1 f1 (g_dest p1) = Inr s3"
    by (simp add: RetirePacket_def GetNextPacketSize_def access_defs trial_defs
        s1_def s2_def s3_def chain3_def p1_def p2_def f1_def)
  then have r3: "s3 \<in> reachable chain3"
    by (rule reachable.retire[OF r2, where p = p1 and head = f1 and tail = f1, rotated 2])
       (simp_all add: s2_def delivered_def p1_def f1_def)
  have "RetirePacket trial_collab (s3\<lparr>ext := (ext s3)\<lparr>pool := remove1 p2 (pool (ext s3))\<rparr>\<rparr>)
          f2 f2 (g_dest p2) = Inr s4"
    by (simp add: RetirePacket_def GetNextPacketSize_def access_defs trial_defs
        s1_def s2_def s3_def s4_def chain3_def p2_def f2_def)
  then have r4: "s4 \<in> reachable chain3"
    by (rule reachable.retire[OF r3, where p = p2 and head = f2 and tail = f2, rotated 2])
       (simp_all add: s3_def delivered_def p2_def f2_def)
  have e: "s4 = chain3_end"
    by (simp add: s4_def s3_def s2_def s1_def chain3_end_def)
  have "requests_outstanding chain3_end ! 1 ! 1 = - 1" by (simp add: chain3_end_def)
  then show ?thesis using r4 chain3_start unfolding e by blast
qed

section \<open>The invariant of a trial\<close>

lemma elem_Inr: "elem v i = Inr x \<Longrightarrow> \<exists>k. i = int k \<and> k < length v \<and> x = v ! k"
  by (auto simp: elem_def split: if_splits intro!: exI[of _ "nat i"])

lemma put_Inr: "put v i x = Inr v' \<Longrightarrow> \<exists>k. i = int k \<and> k < length v \<and> v' = v[k := x]"
  by (auto simp: put_def split: if_splits intro!: exI[of _ "nat i"])

lemma put2_Inr:
  assumes "put2 m i j x = Inr m'"
  shows "\<exists>a b. i = int a \<and> j = int b \<and> a < length m \<and> b < length (m ! a) \<and> m' = upd2 m a b x"
proof -
  obtain row row' where "elem m i = Inr row" "put row j x = Inr row'" "put m i row' = Inr m'"
    using assms by (auto simp: put2_def seq_def split: sum.splits)
  then show ?thesis
    using elem_Inr[of m i row] put_Inr[of row j x row'] put_Inr[of m i row' m']
    by (auto simp: upd2_def)
qed

lemma add2_Inr:
  assumes "add2 m i j d = Inr m'"
  shows "\<exists>a b. i = int a \<and> j = int b \<and> a < length m \<and> b < length (m ! a) \<and>
           m' = upd2 m a b (m ! a ! b + d)"
proof -
  obtain x where x: "elem2 m i j = Inr x" and p: "put2 m i j (x + d) = Inr m'"
    using assms by (auto simp: add2_def seq_def split: sum.splits)
  obtain a b where ab: "i = int a" "j = int b" "a < length m" "b < length (m ! a)"
    "m' = upd2 m a b (x + d)"
    using put2_Inr[OF p] by blast
  have "x = m ! a ! b" using x ab by (simp add: access_defs)
  then show ?thesis using ab by blast
qed

lemma owner_cong:
  "request_class st' = request_class st \<Longrightarrow> reply_class st' = reply_class st
   \<Longrightarrow> owner st' = owner st"
  by (rule ext) (simp add: owner_def)

lemma trial_inv_same:
  assumes "trial_inv st" "shape st'"
    and "classes st' = classes st" "nodes st' = nodes st"
    and "request_class st' = request_class st" "reply_class st' = reply_class st"
    and "requests_outstanding st' = requests_outstanding st"
    and "pool (ext st') = pool (ext st)"
  shows "trial_inv st'"
  using assms owner_cong[OF assms(5,6)]
  by (simp add: trial_inv_def classes_inv_def chain_free_def owned_def)

lemma shape_fields:
  assumes "shape st"
    and "classes st' = classes st" "nodes st' = nodes st"
    and "length (reply_class st') = length (reply_class st)"
    and "length (request_class st') = length (request_class st)"
    and "matrix (classes st) (nodes st) (requests_outstanding st')"
    and "matrix (classes st) (nodes st) (packet_seq_no st')"
    and "matrix (classes st) (nodes st) (partial_packets st')"
    and "matrix (classes st) (nodes st) (qtime st')"
    and "matrix (classes st) (nodes st) (qdrained st')"
    and "length (measure_stats st') = length (measure_stats st)"
    and "length (measured_in_flight_flits st') = length (measured_in_flight_flits st)"
    and "length (tlat_stats st') = length (tlat_stats st)"
    and "matrix (classes st) (nodes st * nodes st) (pair_tlat st')"
  shows "shape st'"
  using assms by (simp add: shape_def)

lemma trial_inv_issue:
  assumes "trial_inv st" "shape st'" "c < classes st" "s < nodes st"
    and "request_class st ! c < 0"
    and "classes st' = classes st" "nodes st' = nodes st"
    and "request_class st' = request_class st" "reply_class st' = reply_class st"
    and "pool (ext st') = pool (ext st) @ [p]" "g_cl p = int c" "g_source p = int s"
    and "requests_outstanding st'
           = upd2 (requests_outstanding st) c s (requests_outstanding st ! c ! s + 1)"
  shows "trial_inv st'"
proof -
  have own: "owner st p = (int c, int s)"
    using assms(5,11,12) by (simp add: owner_def)
  have o: "owned st' c' s' = owned st c' s' + (if c' = c \<and> s' = s then 1 else 0)" for c' s'
    using own owner_cong[OF assms(8,9)] assms(10) by (auto simp: owned_def)
  have sh: "length (requests_outstanding st) = classes st"
    "\<And>k. k < classes st \<Longrightarrow> length (requests_outstanding st ! k) = nodes st"
    using assms(1) by (simp_all add: trial_inv_def shape_def matrix_iff)
  have ro: "requests_outstanding st' ! c' ! s'
          = requests_outstanding st ! c' ! s' + (if c' = c \<and> s' = s then 1 else 0)"
    if "c' < classes st" "s' < nodes st" for c' s'
    using assms(3,4,13) sh that by (auto simp: upd2_nth_eq)
  show ?thesis
    using assms(1,2,3,6-12) o ro
    by (auto simp: trial_inv_def classes_inv_def chain_free_def)
qed


lemma RetirePacket_Inr:
  assumes "RetirePacket E st head tail dst = Inr st'"
  shows "\<exists>c. cl tail = int c \<and> c < length (reply_class st) \<and>
     (if reply_class st ! c < 0 then
        c < length (request_class st) \<and>
        (\<exists>ro ts pt.
           (if request_class st ! c < 0
            then add2 (requests_outstanding st) (cl tail) (src tail) (- 1)
            else add2 (requests_outstanding st) (request_class st ! c) dst (- 1)) = Inr ro \<and>
           st' = st\<lparr>requests_outstanding := ro, tlat_stats := ts, pair_tlat := pt\<rparr> \<and>
           length ts = length (tlat_stats st) \<and> length pt = length (pair_tlat st) \<and>
           (\<forall>k<length pt. length (pt ! k) = length (pair_tlat st ! k)))
      else
        (\<exists>sq sz x'.
           add2 (packet_seq_no st) (cl tail) dst 1 = Inr sq \<and>
           GetNextPacketSize E st (reply_class st ! c) = Inr (sz, x') \<and>
           reply_class st ! c < int (classes st) \<and>
           st' = GeneratePacket E
                   \<lparr>g_source = dest head, g_dest = src head, g_size = sz,
                    g_cl = reply_class st ! c, g_time = atime tail + 1,
                    g_tid = tid tail, g_ttime = ttime tail\<rparr>
                   (st\<lparr>packet_seq_no := sq, ext := x'\<rparr>)))"
proof -
  obtain reply where reply: "elem (reply_class st) (cl tail) = Inr reply"
    and a: "reply < int (classes st)"
    using assms by (auto simp: RetirePacket_def seq_def assert_def split: sum.splits if_splits)
  obtain c where c: "cl tail = int c" "c < length (reply_class st)" "reply = reply_class st ! c"
    using elem_Inr[OF reply] by blast
  show ?thesis
  proof (cases "reply < 0")
    case False
    then obtain sq sz x' where "add2 (packet_seq_no st) (cl tail) dst 1 = Inr sq"
      "GetNextPacketSize E st reply = Inr (sz, x')"
      "st' = GeneratePacket E
                   \<lparr>g_source = dest head, g_dest = src head, g_size = sz,
                    g_cl = reply, g_time = atime tail + 1,
                    g_tid = tid tail, g_ttime = ttime tail\<rparr>
                   (st\<lparr>packet_seq_no := sq, ext := x'\<rparr>)"
      using assms reply a
      by (auto simp: RetirePacket_def seq_def split: sum.splits prod.splits)
    then show ?thesis using c a False by auto
  next
    case True
    obtain request where request: "elem (request_class st) (cl tail) = Inr request"
      using assms reply a True
      by (auto simp: RetirePacket_def seq_def split: sum.splits)
    have rq: "request = request_class st ! c" "c < length (request_class st)"
      using elem_Inr[OF request] c(1) by auto
    obtain ro where ro: "(if request < 0
            then add2 (requests_outstanding st) (cl tail) (src tail) (- 1)
            else add2 (requests_outstanding st) request dst (- 1)) = Inr ro"
      using assms reply a True request
      by (auto simp: RetirePacket_def seq_def split: sum.splits if_splits)
    have "\<exists>ts pt. st' = st\<lparr>requests_outstanding := ro, tlat_stats := ts, pair_tlat := pt\<rparr> \<and>
           length ts = length (tlat_stats st) \<and> length pt = length (pair_tlat st) \<and>
           (\<forall>k<length pt. length (pt ! k) = length (pair_tlat st ! k))"
    proof (cases "sim_state st = warming_up \<or> record_flag tail")
      case False
      then have "st' = st\<lparr>requests_outstanding := ro\<rparr>"
        using assms reply a True request ro
        by (auto simp: RetirePacket_def seq_def assert_def split: sum.splits if_splits)
      then have "st' = st\<lparr>requests_outstanding := ro, tlat_stats := tlat_stats st,
                          pair_tlat := pair_tlat st\<rparr>" by simp
      then show ?thesis by blast
    next
      case rec: True
      let ?k = "if request < 0 then cl tail else request"
      let ?i = "dst * int (nodes st) + src tail"
      let ?v = "atime tail - ttime tail"
      obtain ts tls ps pt where e: "elem (tlat_stats st) ?k = Inr ts"
        "put (tlat_stats st) ?k (AddSample ts ?v) = Inr tls"
        "elem2 (pair_tlat st) ?k ?i = Inr ps"
        "put2 (pair_tlat st) ?k ?i (AddSample ps ?v) = Inr pt"
        and st': "st' = st\<lparr>requests_outstanding := ro, tlat_stats := tls, pair_tlat := pt\<rparr>"
        using assms reply a True request ro rec
        by (auto simp: RetirePacket_def seq_def assert_def Let_def split: sum.splits if_splits)
      have "length tls = length (tlat_stats st)"
        using put_Inr[OF e(2)] by auto
      moreover have "length pt = length (pair_tlat st) \<and>
           (\<forall>k<length pt. length (pt ! k) = length (pair_tlat st ! k))"
        using put2_Inr[OF e(4)] by auto
      ultimately show ?thesis using st' by blast
    qed
    then obtain ts pt where fin:
      "st' = st\<lparr>requests_outstanding := ro, tlat_stats := ts, pair_tlat := pt\<rparr>"
      "length ts = length (tlat_stats st)" "length pt = length (pair_tlat st)"
      "\<forall>k<length pt. length (pt ! k) = length (pair_tlat st ! k)"
      by blast
    have "\<exists>ro ts pt.
           (if request_class st ! c < 0
            then add2 (requests_outstanding st) (cl tail) (src tail) (- 1)
            else add2 (requests_outstanding st) (request_class st ! c) dst (- 1)) = Inr ro \<and>
           st' = st\<lparr>requests_outstanding := ro, tlat_stats := ts, pair_tlat := pt\<rparr> \<and>
           length ts = length (tlat_stats st) \<and> length pt = length (pair_tlat st) \<and>
           (\<forall>k<length pt. length (pt ! k) = length (pair_tlat st ! k))"
      using ro[unfolded rq(1)] fin by blast
    then show ?thesis using c True rq(2) by (intro exI[of _ c]) simp
  qed
qed


lemma length_filter_remove1:
  "p \<in> set xs \<Longrightarrow>
   length (filter P xs) = length (filter P (remove1 p xs)) + (if P p then 1 else 0)"
  by (induction xs) auto

lemma trial_inv_retire_terminal:
  assumes "trial_inv st" "p \<in> set (pool (ext st))" "shape st'"
    and "classes st' = classes st" "nodes st' = nodes st"
    and "request_class st' = request_class st" "reply_class st' = reply_class st"
    and "pool (ext st') = remove1 p (pool (ext st))"
    and "owner st p = (int c, int s)" "c < classes st" "s < nodes st"
    and "requests_outstanding st'
           = upd2 (requests_outstanding st) c s (requests_outstanding st ! c ! s + (- 1))"
  shows "trial_inv st'"
proof -
  have o: "owned st c' s' = owned st' c' s' + (if c' = c \<and> s' = s then 1 else 0)" for c' s'
    using length_filter_remove1[OF assms(2), of "\<lambda>p. owner st p = (int c', int s')"]
      owner_cong[OF assms(6,7)] assms(8,9)
    by (auto simp: owned_def)
  have sh: "length (requests_outstanding st) = classes st"
    "\<And>k. k < classes st \<Longrightarrow> length (requests_outstanding st ! k) = nodes st"
    using assms(1) by (simp_all add: trial_inv_def shape_def matrix_iff)
  have ro: "requests_outstanding st' ! c' ! s'
          = requests_outstanding st ! c' ! s' - (if c' = c \<and> s' = s then 1 else 0)"
    if "c' < classes st" "s' < nodes st" for c' s'
    using assms(10,11,12) sh that by (auto simp: upd2_nth_eq)
  have cls: "\<forall>q\<in>set (pool (ext st')). 0 \<le> g_cl q \<and> g_cl q < int (classes st')"
    using assms(1,4,8) notin_set_remove1[of _ "pool (ext st)" p]
    by (auto simp: trial_inv_def)
  have cnt: "requests_outstanding st' ! c' ! s' = int (owned st' c' s')"
    if "c' < classes st'" "s' < nodes st'" for c' s'
  proof -
    have "requests_outstanding st ! c' ! s' = int (owned st c' s')"
      using assms(1,4,5) that by (simp add: trial_inv_def)
    then show ?thesis using ro[of c' s'] o[of c' s'] that assms(4,5) by auto
  qed
  show ?thesis
    using assms(1,3,4,5,6,7) cls cnt
    by (simp add: trial_inv_def classes_inv_def chain_free_def)
qed

lemma trial_inv_retire_request:
  assumes "trial_inv st" "p \<in> set (pool (ext st))" "shape st'"
    and "classes st' = classes st" "nodes st' = nodes st"
    and "request_class st' = request_class st" "reply_class st' = reply_class st"
    and "requests_outstanding st' = requests_outstanding st"
    and "pool (ext st') = remove1 p (pool (ext st)) @ [q]"
    and "owner st q = owner st p" "0 \<le> g_cl q" "g_cl q < int (classes st)"
  shows "trial_inv st'"
proof -
  have o: "owned st c' s' = owned st' c' s'" for c' s'
    using length_filter_remove1[OF assms(2), of "\<lambda>p. owner st p = (int c', int s')"]
      owner_cong[OF assms(6,7)] assms(9,10)
    by (auto simp: owned_def)
  have cls: "\<forall>q\<in>set (pool (ext st')). 0 \<le> g_cl q \<and> g_cl q < int (classes st')"
    using assms(1,4,9,11,12) notin_set_remove1[of _ "pool (ext st)" p]
    by (auto simp: trial_inv_def)
  show ?thesis
    using assms(1,3-8) cls o
    by (simp add: trial_inv_def classes_inv_def chain_free_def)
qed

lemma GetNextPacketSize_trial_pool:
  assumes "GetNextPacketSize trial_collab st r = Inr (sz, x')"
  shows "pool x' = pool (ext st)"
proof -
  have "pool (snd (trial_random m x)) = pool x" for m x
    by (simp add: trial_random_def split: list.splits)
  then show ?thesis
    using assms
    by (auto simp: GetNextPacketSize_def seq_def trial_collab_def
        split: sum.splits if_splits prod.splits) (metis snd_conv)+
qed

lemma RetirePacket_cases:
  assumes "RetirePacket E st head tail dst = Inr st'"
  obtains (terminal) c ro ts pt where
      "cl tail = int c" "c < length (reply_class st)" "reply_class st ! c < 0"
      "c < length (request_class st)"
      "(if request_class st ! c < 0
        then add2 (requests_outstanding st) (cl tail) (src tail) (- 1)
        else add2 (requests_outstanding st) (request_class st ! c) dst (- 1)) = Inr ro"
      "st' = st\<lparr>requests_outstanding := ro, tlat_stats := ts, pair_tlat := pt\<rparr>"
      "length ts = length (tlat_stats st)" "length pt = length (pair_tlat st)"
      "\<forall>k<length pt. length (pt ! k) = length (pair_tlat st ! k)"
  | (reply) c sq sz x' where
      "cl tail = int c" "c < length (reply_class st)" "0 \<le> reply_class st ! c"
      "add2 (packet_seq_no st) (cl tail) dst 1 = Inr sq"
      "GetNextPacketSize E st (reply_class st ! c) = Inr (sz, x')"
      "reply_class st ! c < int (classes st)"
      "st' = GeneratePacket E
               \<lparr>g_source = dest head, g_dest = src head, g_size = sz,
                g_cl = reply_class st ! c, g_time = atime tail + 1,
                g_tid = tid tail, g_ttime = ttime tail\<rparr>
               (st\<lparr>packet_seq_no := sq, ext := x'\<rparr>)"
proof -
  obtain c where c: "cl tail = int c" "c < length (reply_class st)"
    and alt: "if reply_class st ! c < 0 then
        c < length (request_class st) \<and>
        (\<exists>ro ts pt.
           (if request_class st ! c < 0
            then add2 (requests_outstanding st) (cl tail) (src tail) (- 1)
            else add2 (requests_outstanding st) (request_class st ! c) dst (- 1)) = Inr ro \<and>
           st' = st\<lparr>requests_outstanding := ro, tlat_stats := ts, pair_tlat := pt\<rparr> \<and>
           length ts = length (tlat_stats st) \<and> length pt = length (pair_tlat st) \<and>
           (\<forall>k<length pt. length (pt ! k) = length (pair_tlat st ! k)))
      else
        (\<exists>sq sz x'.
           add2 (packet_seq_no st) (cl tail) dst 1 = Inr sq \<and>
           GetNextPacketSize E st (reply_class st ! c) = Inr (sz, x') \<and>
           reply_class st ! c < int (classes st) \<and>
           st' = GeneratePacket E
                   \<lparr>g_source = dest head, g_dest = src head, g_size = sz,
                    g_cl = reply_class st ! c, g_time = atime tail + 1,
                    g_tid = tid tail, g_ttime = ttime tail\<rparr>
                   (st\<lparr>packet_seq_no := sq, ext := x'\<rparr>))"
    using RetirePacket_Inr[OF assms] by blast
  show thesis
  proof (cases "reply_class st ! c < 0")
    case True
    then show ?thesis using alt c terminal[of c] by auto
  next
    case False
    then show ?thesis using alt c reply[of c] by auto
  qed
qed

lemma trial_retire_inv:
  assumes inv: "trial_inv st" and p: "p \<in> set (pool (ext st))"
    and d: "delivered p head tail"
    and r: "RetirePacket trial_collab
              (st\<lparr>ext := (ext st)\<lparr>pool := remove1 p (pool (ext st))\<rparr>\<rparr>)
              head tail (g_dest p) = Inr st'"
  shows "trial_inv st'"
proof -
  let ?stm = "st\<lparr>ext := (ext st)\<lparr>pool := remove1 p (pool (ext st))\<rparr>\<rparr>"
  have sh: "shape st" and ci: "classes_inv st" and cf: "chain_free st"
    using inv by (simp_all add: trial_inv_def)
  have len: "length (reply_class st) = classes st" "length (request_class st) = classes st"
    "matrix (classes st) (nodes st) (requests_outstanding st)"
    "matrix (classes st) (nodes st) (packet_seq_no st)"
    using sh by (simp_all add: shape_def)
  from r show ?thesis
  proof (cases rule: RetirePacket_cases)
    case (terminal c ro ts pt)
    have c: "cl tail = int c" "c < classes st" using terminal(1,2) len(1) by simp_all
    have True: "reply_class st ! c < 0" using terminal(3) by simp
    have dec: "(if request_class st ! c < 0
            then add2 (requests_outstanding st) (cl tail) (src tail) (- 1)
            else add2 (requests_outstanding st) (request_class st ! c) (g_dest p) (- 1)) = Inr ro"
      using terminal(5) by (simp cong: if_cong)
    have st': "st' = ?stm\<lparr>requests_outstanding := ro, tlat_stats := ts, pair_tlat := pt\<rparr>"
      using terminal(6) .
    have lens: "length ts = length (tlat_stats st)" "length pt = length (pair_tlat st)"
        "\<forall>k<length pt. length (pt ! k) = length (pair_tlat st ! k)"
      using terminal(7,8,9) by simp_all
    have pc: "g_cl p = int c" "src tail = g_source p" "dest head = g_dest p"
      "src head = g_source p"
      using d c(1) by (simp_all add: delivered_def)
    obtain a b where ab: "owner st p = (int a, int b)" "a < classes st" "b < nodes st"
      "ro = upd2 (requests_outstanding st) a b (requests_outstanding st ! a ! b + (- 1))"
    proof (cases "request_class st ! c < 0")
      case rq: True
      then obtain a b where "cl tail = int a" "src tail = int b"
        "a < length (requests_outstanding st)" "b < length (requests_outstanding st ! a)"
        "ro = upd2 (requests_outstanding st) a b (requests_outstanding st ! a ! b + (- 1))"
        using dec add2_Inr[of "requests_outstanding st" "cl tail" "src tail" "- 1" ro] by auto
      moreover have "owner st p = (g_cl p, g_source p)"
        using rq pc(1) by (simp add: owner_def)
      ultimately show ?thesis using that pc c len(3) by (auto simp: matrix_iff)
    next
      case rq: False
      then obtain a b where "request_class st ! c = int a" "g_dest p = int b"
        "a < length (requests_outstanding st)" "b < length (requests_outstanding st ! a)"
        "ro = upd2 (requests_outstanding st) a b (requests_outstanding st ! a ! b + (- 1))"
        using dec add2_Inr[of "requests_outstanding st" "request_class st ! c" "g_dest p" "- 1" ro]
        by auto
      moreover have "owner st p = (request_class st ! c, g_dest p)"
        using rq True pc(1) by (simp add: owner_def)
      ultimately show ?thesis using that len(3) by (auto simp: matrix_iff)
    qed
    have sh': "shape st'"
      using sh st' ab(4) lens by (simp add: shape_def matrix_iff)
    show ?thesis
      by (rule trial_inv_retire_terminal[OF inv p sh' _ _ _ _ _ ab(1,2,3)])
         (simp_all add: st' ab(4))
  next
    case (reply c sq sz x')
    have c: "cl tail = int c" "c < classes st" using reply(1,2) len(1) by simp_all
    have pc: "g_cl p = int c" "src tail = g_source p" "dest head = g_dest p"
      "src head = g_source p"
      using d c(1) by (simp_all add: delivered_def)
    have False: "\<not> reply_class st ! c < 0" using reply(3) by simp
    have sq: "add2 (packet_seq_no st) (cl tail) (g_dest p) 1 = Inr sq"
      using reply(4) by simp
    have gs: "GetNextPacketSize trial_collab ?stm (reply_class st ! c) = Inr (sz, x')"
      using reply(5) by simp
    have rlt: "reply_class st ! c < int (classes st)" using reply(6) by simp
    have st': "st' = GeneratePacket trial_collab
                   \<lparr>g_source = dest head, g_dest = src head, g_size = sz,
                    g_cl = reply_class st ! c, g_time = atime tail + 1,
                    g_tid = tid tail, g_ttime = ttime tail\<rparr>
                   (?stm\<lparr>packet_seq_no := sq, ext := x'\<rparr>)"
      using reply(7) by simp
    let ?q = "\<lparr>g_source = dest head, g_dest = src head, g_size = sz,
                    g_cl = reply_class st ! c, g_time = atime tail + 1,
                    g_tid = tid tail, g_ttime = ttime tail\<rparr>"
    have st'': "st' = st\<lparr>packet_seq_no := sq, ext := x'\<lparr>pool := pool x' @ [?q]\<rparr>\<rparr>"
      using st' by (simp add: trial_collab_def trial_generate_def)
    have px: "pool x' = remove1 p (pool (ext st))"
      using GetNextPacketSize_trial_pool[OF gs] by simp
    obtain a b where "sq = upd2 (packet_seq_no st) a b (packet_seq_no st ! a ! b + 1)"
      using add2_Inr[OF sq] by blast
    then have sh': "shape st'"
      using sh st'' by (simp add: shape_def)
    let ?r = "nat (reply_class st ! c)"
    have r: "?r < classes st" "reply_class st ! c = int ?r" using False rlt by auto
    have "request_class st ! ?r = int c"
      using ci c(2) False by (simp add: classes_inv_def)
    moreover have "reply_class st ! ?r < 0"
      using cf c(2) False by (simp add: chain_free_def)
    ultimately have oq: "owner st ?q = (int c, g_source p)"
      using pc by (simp add: owner_def)
    have op: "owner st p = (int c, g_source p)"
      using False pc by (simp add: owner_def)
    show ?thesis
      by (rule trial_inv_retire_request[OF inv p sh', where q = ?q])
         (use st'' px oq op False rlt in simp_all)
  qed
qed

lemma trial_issue_cases:
  assumes "trial_issue source c st = (issued, st1)"
  shows "(\<not> issued \<and> (\<exists>sc. st1 = st\<lparr>ext := (ext st)\<lparr>script := sc\<rparr>\<rparr>)) \<or>
         (issued \<and> (\<exists>sc p. st1 = st\<lparr>ext := (ext st)\<lparr>pool := pool (ext st) @ [p],
                                                     script := sc\<rparr>\<rparr> \<and>
                           g_cl p = c \<and> g_source p = source))"
proof (cases "script (ext st)")
  case Nil
  then have "\<not> issued" "st1 = st\<lparr>ext := (ext st)\<lparr>script := script (ext st)\<rparr>\<rparr>"
    using assms by (simp_all add: trial_issue_def)
  then show ?thesis by blast
next
  case (Cons a rest)
  obtain go d sz where a: "a = (go, d, sz)" by (cases a)
  show ?thesis
  proof (cases go)
    case True
    let ?p = "\<lparr>g_source = source, g_dest = d, g_size = sz, g_cl = c,
               g_time = time st, g_tid = - 1, g_ttime = - 1\<rparr>"
    have "issued" "st1 = st\<lparr>ext := (ext st)\<lparr>pool := pool (ext st) @ [?p], script := rest\<rparr>\<rparr>"
      using assms Cons a True by (auto simp: trial_issue_def trial_generate_def)
    then show ?thesis by (intro disjI2 conjI exI[of _ rest] exI[of _ ?p]) simp_all
  next
    case False
    then have "\<not> issued" "st1 = st\<lparr>ext := (ext st)\<lparr>script := rest\<rparr>\<rparr>"
      using assms Cons a by (simp_all add: trial_issue_def)
    then show ?thesis by blast
  qed
qed

lemma timer_loop_trial_inv:
  "timer_loop E c s n st = Some r \<Longrightarrow> E = trial_collab \<Longrightarrow> trial_inv st \<Longrightarrow> c < classes st
   \<Longrightarrow> request_class st ! c < 0 \<Longrightarrow> r = Inr (n', st') \<Longrightarrow> trial_inv st'"
proof (induction arbitrary: n' st' rule: timer_loop.raw_induct[rotated -1, consumes 1])
  case (1 loop E c s n st r)
  note E = "1.prems"(1) and inv = "1.prems"(2) and c = "1.prems"(3) and rq = "1.prems"(4)
    and r = "1.prems"(5)
  have sh: "shape st" using inv by (simp add: trial_inv_def)
  show ?case
  proof (cases "elem2 (qtime st) (int c) (int s)")
    case (Inl e)
    then show ?thesis using "1.hyps" r by simp
  next
    case (Inr q)
    show ?thesis
    proof (cases "q \<le> time st")
      case False
      then show ?thesis using "1.hyps" r Inr inv by simp
    next
      case le: True
      show ?thesis
      proof (cases "put2 (qtime st) (int c) (int s) (q + 1)")
        case (Inl e)
        then show ?thesis using "1.hyps" r Inr le by simp
      next
        case qt: (Inr qt)
        obtain a b where ab: "int c = int a" "int s = int b" "a < length (qtime st)"
          "b < length (qtime st ! a)" "qt = upd2 (qtime st) a b (q + 1)"
          using put2_Inr[OF qt] by blast
        have s: "s < nodes st" using ab sh by (simp add: shape_def matrix_iff)
        obtain issued st1 where i:
          "IssuePacket E (int s) (int c) (st\<lparr>qtime := qt\<rparr>) = (issued, st1)"
          by (cases "IssuePacket E (int s) (int c) (st\<lparr>qtime := qt\<rparr>)")
        then have ti: "trial_issue (int s) (int c) (st\<lparr>qtime := qt\<rparr>) = (issued, st1)"
          using E by (simp add: trial_collab_def)
        have sh0: "shape (st\<lparr>qtime := qt\<rparr>)"
          using sh ab(5) by (simp add: shape_def)
        show ?thesis
        proof (cases issued)
          case False
          then obtain sc where st1: "st1 = st\<lparr>qtime := qt, ext := (ext st)\<lparr>script := sc\<rparr>\<rparr>"
            using trial_issue_cases[OF ti] by auto
          have "shape st1" using sh0 st1 by (simp add: shape_def)
          then have inv1: "trial_inv st1"
            by (rule trial_inv_same[OF inv]) (simp_all add: st1)
          have "loop E c s (Suc n) st1 = Some (Inr (n', st'))"
            using "1.hyps" r Inr le qt i False by simp
          from "1.IH"[OF this E inv1 _ _ refl] show ?thesis
            using c rq st1 by simp
        next
          case True
          then obtain sc p where st1:
            "st1 = st\<lparr>qtime := qt,
                      ext := (ext st)\<lparr>pool := pool (ext st) @ [p], script := sc\<rparr>\<rparr>"
            and p: "g_cl p = int c" "g_source p = int s"
            using trial_issue_cases[OF ti] by auto
          obtain ro sq where ro: "add2 (requests_outstanding st1) (int c) (int s) 1 = Inr ro"
            and sq: "add2 (packet_seq_no st1) (int c) (int s) 1 = Inr sq"
            and st': "st' = st1\<lparr>requests_outstanding := ro, packet_seq_no := sq\<rparr>"
            using "1.hyps" r Inr le qt i True
            by (auto simp: seq_def split: sum.splits)
          have ro': "ro = upd2 (requests_outstanding st) c s (requests_outstanding st ! c ! s + 1)"
            using add2_Inr[OF ro] st1 by auto
          obtain a' b' where "sq = upd2 (packet_seq_no st) a' b' (packet_seq_no st ! a' ! b' + 1)"
            using add2_Inr[OF sq] st1 by auto
          then have "shape st'"
            using sh0 st' st1 ro' by (simp add: shape_def)
          then show ?thesis
            by (rule trial_inv_issue[OF inv _ c s rq, where p = p])
               (simp_all add: st' st1 p ro')
        qed
      qed
    qed
  qed
qed

lemma mark_drained_trial_inv:
  assumes "mark_drained c s st = Inr st'" "trial_inv st"
  shows "trial_inv st'"
proof (cases "st' = st")
  case True
  then show ?thesis using assms(2) by simp
next
  case False
  then obtain qd where qd: "put2 (qdrained st) (int c) (int s) True = Inr qd"
    and st': "st' = st\<lparr>qdrained := qd\<rparr>"
    using assms(1) by (auto simp: mark_drained_def seq_def split: if_splits sum.splits)
  obtain a b where "qd = upd2 (qdrained st) a b True" using put2_Inr[OF qd] by blast
  then have "shape st'" using assms(2) st' by (simp add: trial_inv_def shape_def)
  then show ?thesis by (rule trial_inv_same[OF assms(2)]) (simp_all add: st')
qed

lemma inject_pair_trial_inv:
  assumes "inject_pair trial_collab c s st = Some (Inr st')" "trial_inv st"
  shows "trial_inv st'"
proof (cases "elem2 (partial_packets st) (int c) (int s)")
  case (Inl e)
  then show ?thesis using assms(1) by (simp add: inject_pair_def)
next
  case pp: (Inr pp)
  show ?thesis
  proof (cases "pp = []")
    case False
    then show ?thesis using assms pp by (simp add: inject_pair_def)
  next
    case True
    show ?thesis
    proof (cases "elem (request_class st) (int c)")
      case (Inl e)
      then show ?thesis using assms(1) pp True by (simp add: inject_pair_def)
    next
      case rq: (Inr request)
      have c: "c < classes st" "request = request_class st ! c"
        using elem_Inr[OF rq] assms(2) by (auto simp: trial_inv_def shape_def)
      show ?thesis
      proof (cases "0 \<le> request")
        case ge: True
        then obtain qt where qt: "put2 (qtime st) (int c) (int s) (time st) = Inr qt"
          and m: "mark_drained c s (st\<lparr>qtime := qt\<rparr>) = Inr st'"
          using assms(1) pp True rq
          by (auto simp: inject_pair_def seq_def split: sum.splits)
        obtain a b where "qt = upd2 (qtime st) a b (time st)" using put2_Inr[OF qt] by blast
        then have "shape (st\<lparr>qtime := qt\<rparr>)"
          using assms(2) by (simp add: trial_inv_def shape_def)
        then have "trial_inv (st\<lparr>qtime := qt\<rparr>)"
          by (rule trial_inv_same[OF assms(2)]) simp_all
        then show ?thesis by (rule mark_drained_trial_inv[OF m])
      next
        case False
        then obtain n st1 where t: "timer_loop trial_collab c s 0 st = Some (Inr (n, st1))"
          and m: "mark_drained c s st1 = Inr st'"
          using assms(1) pp True rq
          by (auto simp: inject_pair_def split: option.splits sum.splits)
        have "trial_inv st1"
          using timer_loop_trial_inv[OF t refl assms(2) c(1) _ refl] False c(2) by simp
        then show ?thesis by (rule mark_drained_trial_inv[OF m])
      qed
    qed
  qed
qed

lemma Inject_trial_inv:
  assumes "Inject trial_collab st = Some (Inr st')" "trial_inv st"
  shows "trial_inv st'"
proof -
  have inner: "trial_inv a \<longrightarrow> trial_inv b"
    if "for_loop nodes (\<lambda>source. inject_pair trial_collab c source) 0 a = Some (Inr b)" for c a b
    using that
    by (rule for_loop_rel[where R = "\<lambda>a b. trial_inv a \<longrightarrow> trial_inv b"])
       (auto intro: inject_pair_trial_inv)
  have "trial_inv st \<longrightarrow> trial_inv st'"
    using assms(1) unfolding Inject_def
    by (rule for_loop_rel[where R = "\<lambda>a b. trial_inv a \<longrightarrow> trial_inv b"])
       (use inner in auto)
  then show ?thesis using assms(2) by simp
qed

lemma engine_trial_inv:
  assumes "trial_inv st" "matrix (classes st) (nodes st) pp"
  shows "trial_inv (st\<lparr>time := t, drain_time := dt, sim_state := ph, partial_packets := pp,
                      ext := (ext st)\<lparr>script := sc, draws := dr\<rparr>\<rparr>)"
proof -
  have "shape (st\<lparr>time := t, drain_time := dt, sim_state := ph, partial_packets := pp,
                  ext := (ext st)\<lparr>script := sc, draws := dr\<rparr>\<rparr>)"
    using assms by (simp add: trial_inv_def shape_def)
  then show ?thesis by (rule trial_inv_same[OF assms(1)]) simp_all
qed

lemma reachable_trial_inv:
  assumes "trial_inv st0" "st \<in> reachable st0"
  shows "trial_inv st"
  using assms(2)
proof (induction rule: reachable.induct)
  case start
  then show ?case using assms(1) .
next
  case (inject st st')
  then show ?case using Inject_trial_inv by blast
next
  case (retire st p head tail st')
  then show ?case using trial_retire_inv by blast
next
  case (engine st pp t dt ph sc dr)
  then show ?case by (simp add: engine_trial_inv)
qed

text \<open>The constructor's loop leaves \<open>_request_class\<close> the inverse of \<open>_reply_class\<close>, with
  every entry below the number of classes.\<close>

lemma request_class_loop_inv:
  assumes "request_class_loop n reply c request = Inr out"
    and "length reply = n" "length request = n"
    and "\<forall>k<c. reply ! k < int n \<and> (0 \<le> reply ! k \<longrightarrow> request ! nat (reply ! k) = int k)"
    and "\<forall>k<n. request ! k < int c \<and> (0 \<le> request ! k \<longrightarrow> reply ! nat (request ! k) = int k)"
    and "c \<le> n"
  shows "length out = n \<and>
         (\<forall>k<n. reply ! k < int n \<and> (0 \<le> reply ! k \<longrightarrow> out ! nat (reply ! k) = int k)) \<and>
         (\<forall>k<n. out ! k < int n \<and> (0 \<le> out ! k \<longrightarrow> reply ! nat (out ! k) = int k))"
  using assms
proof (induction n reply c request rule: request_class_loop.induct)
  case (1 n reply c request)
  show ?case
  proof (cases "c < n")
    case False
    then have c: "c = n" using "1.prems"(6) by simp
    have "out = request" using "1.prems"(1) False by (subst (asm) request_class_loop.simps) simp
    then show ?thesis using "1.prems"(3,4,5) c by simp
  next
    case True
    have rc: "elem reply (int c) = Inr (reply ! c)"
      using True "1.prems"(2) by (simp add: elem_def)
    show ?thesis
    proof (cases "0 \<le> reply ! c")
      case False
      have run: "request_class_loop n reply (Suc c) request = Inr out"
        using "1.prems"(1) True False rc by (subst (asm) request_class_loop.simps) simp
      have a: "\<forall>k<Suc c. reply ! k < int n \<and>
                 (0 \<le> reply ! k \<longrightarrow> request ! nat (reply ! k) = int k)"
        using "1.prems"(4) False True by (auto simp: less_Suc_eq)
      have b: "\<forall>k<n. request ! k < int (Suc c) \<and>
                 (0 \<le> request ! k \<longrightarrow> reply ! nat (request ! k) = int k)"
        using "1.prems"(5) by fastforce
      show ?thesis
        using "1.IH"(2)[OF True rc False run "1.prems"(2,3) a b] True by simp
    next
      case pos: True
      obtain r where r: "elem request (reply ! c) = Inr r"
        using "1.prems"(1) True pos rc
        by (subst (asm) request_class_loop.simps) (simp split: sum.splits)
      from elem_Inr[OF r] obtain j where j: "reply ! c = int j" "j < length request"
        "r = request ! j" by blast
      have neg: "r < 0"
        using "1.prems"(1) True pos rc r
        by (subst (asm) request_class_loop.simps) (simp split: if_splits)
      have pt: "put request (reply ! c) (int c) = Inr (request[j := int c])"
        using j by (simp add: put_def)
      have run: "request_class_loop n reply (Suc c) (request[j := int c]) = Inr out"
        using "1.prems"(1) True pos rc r neg pt
        by (subst (asm) request_class_loop.simps) simp
      have jn: "j < n" using j(2) "1.prems"(3) by simp
      have a: "\<forall>k<Suc c. reply ! k < int n \<and>
                 (0 \<le> reply ! k \<longrightarrow> (request[j := int c]) ! nat (reply ! k) = int k)"
      proof (intro allI impI)
        fix k assume k: "k < Suc c"
        show "reply ! k < int n \<and>
              (0 \<le> reply ! k \<longrightarrow> (request[j := int c]) ! nat (reply ! k) = int k)"
        proof (cases "k = c")
          case True
          then show ?thesis using j jn "1.prems"(3) by simp
        next
          case False
          then have kc: "k < c" using k by simp
          from "1.prems"(4) kc have h: "reply ! k < int n"
            "0 \<le> reply ! k \<longrightarrow> request ! nat (reply ! k) = int k" by auto
          have "0 \<le> reply ! k \<Longrightarrow> nat (reply ! k) \<noteq> j"
            using h(2) neg j(3) by auto
          then show ?thesis using h by auto
        qed
      qed
      have b: "\<forall>k<n. (request[j := int c]) ! k < int (Suc c) \<and>
                 (0 \<le> (request[j := int c]) ! k \<longrightarrow>
                    reply ! nat ((request[j := int c]) ! k) = int k)"
      proof (intro allI impI)
        fix k assume k: "k < n"
        show "(request[j := int c]) ! k < int (Suc c) \<and>
                 (0 \<le> (request[j := int c]) ! k \<longrightarrow>
                    reply ! nat ((request[j := int c]) ! k) = int k)"
        proof (cases "k = j")
          case True
          then show ?thesis using j "1.prems"(3) by simp
        next
          case False
          then show ?thesis using "1.prems"(5) k by fastforce
        qed
      qed
      have len: "length (request[j := int c]) = n" using "1.prems"(3) by simp
      show ?thesis
        using "1.IH"(1)[OF True rc pos r neg pt run "1.prems"(2) len a b] True by simp
    qed
  qed
qed

lemma init_request_class_inv:
  assumes "init_request_class n reply = Inr request" "length reply = n"
  shows "length request = n \<and>
         (\<forall>k<n. reply ! k < int n \<and> (0 \<le> reply ! k \<longrightarrow> request ! nat (reply ! k) = int k)) \<and>
         (\<forall>k<n. request ! k < int n \<and> (0 \<le> request ! k \<longrightarrow> reply ! nat (request ! k) = int k))"
  by (rule request_class_loop_inv[OF assms(1)[unfolded init_request_class_def] assms(2)])
     (simp_all add: resize_def)

lemma trial_start_classes_inv:
  assumes "trial_start st"
  shows "classes_inv st"
proof -
  have c: "init_request_class (classes st) (reply_class st) = Inr (request_class st)"
    and l: "length (reply_class st) = classes st"
    using assms by (simp_all add: trial_start_def shape_def)
  from init_request_class_inv[OF c l] l show ?thesis
    by (simp add: classes_inv_def)
qed

lemma trial_start_inv:
  assumes "trial_start st0" "chain_free st0"
  shows "trial_inv st0"
  using assms trial_start_classes_inv[OF assms(1)]
  by (simp add: trial_start_def trial_inv_def owned_def)


text \<open>
  Claim C7, as amended. In a trial whose configuration gives no reply class a reply class
  of its own, started with an empty network and all counters at zero, every outstanding
  counter equals the number of packets in the network counted in it (the requests and
  self-contained packets issued from that class and source, and the replies on their way
  back to it), so it is never negative: every decrement at retirement removes a packet
  whose issuance incremented the same counter.
\<close>

theorem outstanding_counts_pool:
  assumes "trial_start st0" "chain_free st0" "st \<in> reachable st0"
  shows "\<forall>c<classes st. \<forall>s<nodes st.
           requests_outstanding st ! c ! s = int (owned st c s) \<and>
           0 \<le> requests_outstanding st ! c ! s"
  using reachable_trial_inv[OF trial_start_inv[OF assms(1,2)] assms(3)]
  by (simp add: trial_inv_def)

lemma pair2_inject:
  "Inject trial_collab pair2 =
     Some (Inr (pair2\<lparr>requests_outstanding := [[1, 0], [0, 0]],
                      packet_seq_no := [[1, 0], [0, 0]],
                      qtime := [[1, 1], [0, 0]],
                      ext := \<lparr>pool = [\<lparr>g_source = 0, g_dest = 1, g_size = 1, g_cl = 0,
                                      g_time = 0, g_tid = - 1, g_ttime = - 1\<rparr>],
                              script = [], draws = []\<rparr>\<rparr>))"
  by (simp add: Inject_def for_loop.simps inject_pair_def timer_loop.simps mark_drained_def
      access_defs pair2_def trial_defs)

theorem outstanding_counts_pool_witness:
  "trial_start pair2 \<and> chain_free pair2 \<and>
   (\<exists>st\<in>reachable pair2. requests_outstanding st ! 0 ! 0 = 1 \<and> owned st 0 0 = 1)"
proof -
  define s1 where "s1 = pair2\<lparr>requests_outstanding := [[1, 0], [0, 0]],
                      packet_seq_no := [[1, 0], [0, 0]],
                      qtime := [[1, 1], [0, 0]],
                      ext := \<lparr>pool = [\<lparr>g_source = 0, g_dest = 1, g_size = 1, g_cl = 0,
                                      g_time = 0, g_tid = - 1, g_ttime = - 1\<rparr>],
                              script = [], draws = []\<rparr>\<rparr>"
  have "init_request_class (classes pair2) (reply_class pair2) = Inr (request_class pair2)"
    by (simp add: init_request_class_def pair2_def request_class_loop.simps resize_def
        access_defs numeral_2_eq_2)
  then have st: "trial_start pair2"
    by (simp add: trial_start_def shape_def matrix_def pair2_def less_Suc_eq numeral_2_eq_2)
  have cf: "chain_free pair2"
    by (simp add: chain_free_def pair2_def less_Suc_eq numeral_2_eq_2)
  have r: "s1 \<in> reachable pair2"
    using reachable.inject[OF reachable.start pair2_inject] by (simp add: s1_def)
  have d: "0 < classes s1" "0 < nodes s1" "requests_outstanding s1 ! 0 ! 0 = 1"
    by (simp_all add: s1_def pair2_def)
  from outstanding_counts_pool[OF st cf r, rule_format, OF d(1,2)] d(3)
  have "owned s1 0 0 = 1" by simp
  then show ?thesis using st cf r d(3) by blast
qed

section \<open>The index of a virtual channel\<close>

text \<open>
  Called on a buffer of two virtual channels with the index 2, or with the index -1, an
  operation makes the unchecked access outside the vector. No assertion fails: the
  operations contain none.
\<close>

theorem Buffer_no_assertion:
  "Buffer_new fifo_vc 2 = Some two_vcs \<and>
   Buffer_Empty fifo_vc two_vcs 2 = Inl OutOfBounds \<and>
   Buffer_Empty fifo_vc two_vcs 2 \<noteq> Inl AssertionFailed \<and>
   Buffer_Full fifo_vc two_vcs 2 \<noteq> Inl AssertionFailed \<and>
   Buffer_RemoveFlit fifo_vc two_vcs (- 1) \<noteq> Inl AssertionFailed \<and>
   Buffer_AddFlit fifo_vc two_vcs (- 1) (Some a_flit) \<noteq> Inl AssertionFailed"
  by (simp add: Buffer_new_def Buffer_Empty_def Buffer_Full_def Buffer_RemoveFlit_def
      Buffer_AddFlit_def fifo_vc_def two_vcs_def elem_def numeral_2_eq_2)

text \<open>
  Claim C8, as amended. The constructor gives a buffer \<open>num_vcs\<close> virtual channels. An
  operation that takes an index in \<open>[0, num_vcs)\<close> is the operation of the same name of the
  virtual channel at that index: it returns what that returns, changes no other virtual
  channel and keeps their number. With an index out of that range the operation makes an
  unchecked access outside the vector, which is undefined behaviour and not an assertion
  failure, and it returns no result.
\<close>

theorem Buffer_index:
  "(\<forall>b'. Buffer_new V n = Some b' \<longrightarrow> int (length (b_vc b')) = n) \<and>
   (0 \<le> i \<and> i < int (length (b_vc b)) \<longrightarrow>
      Buffer_AddFlit V b i f =
        (case VC_AddFlit V f (b_vc b ! nat i) of
           Inl e \<Rightarrow> Inl e
         | Inr (r, v') \<Rightarrow> Inr (r, b\<lparr>b_vc := (b_vc b)[nat i := v']\<rparr>)) \<and>
      Buffer_RemoveFlit V b i =
        (case VC_RemoveFlit V (b_vc b ! nat i) of
           Inl e \<Rightarrow> Inl e
         | Inr (g, v') \<Rightarrow> Inr (g, b\<lparr>b_vc := (b_vc b)[nat i := v']\<rparr>)) \<and>
      Buffer_Empty V b i = VC_Empty V (b_vc b ! nat i) \<and>
      Buffer_Full V b i = VC_Full V (b_vc b ! nat i)) \<and>
   (\<not> (0 \<le> i \<and> i < int (length (b_vc b))) \<longrightarrow>
      Buffer_AddFlit V b i f = Inl OutOfBounds \<and>
      Buffer_RemoveFlit V b i = Inl OutOfBounds \<and>
      Buffer_Empty V b i = Inl OutOfBounds \<and>
      Buffer_Full V b i = Inl OutOfBounds)"
proof (intro conjI allI impI)
  fix b' assume "Buffer_new V n = Some b'"
  then show "int (length (b_vc b')) = n"
    by (auto simp: Buffer_new_def split: if_splits)
next
  assume r: "0 \<le> i \<and> i < int (length (b_vc b))"
  then have e: "elem (b_vc b) i = Inr (b_vc b ! nat i)" by (simp add: elem_def)
  show "Buffer_AddFlit V b i f =
        (case VC_AddFlit V f (b_vc b ! nat i) of
           Inl e \<Rightarrow> Inl e
         | Inr (r, v') \<Rightarrow> Inr (r, b\<lparr>b_vc := (b_vc b)[nat i := v']\<rparr>))"
    by (simp add: Buffer_AddFlit_def e seq_def split: sum.splits)
  show "Buffer_RemoveFlit V b i =
        (case VC_RemoveFlit V (b_vc b ! nat i) of
           Inl e \<Rightarrow> Inl e
         | Inr (g, v') \<Rightarrow> Inr (g, b\<lparr>b_vc := (b_vc b)[nat i := v']\<rparr>))"
    by (simp add: Buffer_RemoveFlit_def e seq_def split: sum.splits)
  show "Buffer_Empty V b i = VC_Empty V (b_vc b ! nat i)"
    by (simp add: Buffer_Empty_def e)
  show "Buffer_Full V b i = VC_Full V (b_vc b ! nat i)"
    by (simp add: Buffer_Full_def e)
next
  assume "\<not> (0 \<le> i \<and> i < int (length (b_vc b)))"
  then have e: "elem (b_vc b) i = Inl OutOfBounds" by (auto simp: elem_def)
  show "Buffer_AddFlit V b i f = Inl OutOfBounds" by (simp add: Buffer_AddFlit_def e)
  show "Buffer_RemoveFlit V b i = Inl OutOfBounds" by (simp add: Buffer_RemoveFlit_def e)
  show "Buffer_Empty V b i = Inl OutOfBounds" by (simp add: Buffer_Empty_def e)
  show "Buffer_Full V b i = Inl OutOfBounds" by (simp add: Buffer_Full_def e)
qed

theorem Buffer_index_witness:
  "int (length (b_vc two_vcs)) = 2 \<and>
   Buffer_AddFlit fifo_vc two_vcs 1 (Some a_flit) = Inr (True, \<lparr>b_vc = [[], [a_flit]]\<rparr>) \<and>
   Buffer_RemoveFlit fifo_vc \<lparr>b_vc = [[], [a_flit]]\<rparr> 1 = Inr (Some a_flit, two_vcs) \<and>
   Buffer_Empty fifo_vc two_vcs 0 = Inr True \<and>
   Buffer_Full fifo_vc two_vcs 0 = Inr False \<and>
   Buffer_Full fifo_vc two_vcs 2 = Inl OutOfBounds"
proof -
  have n: "Buffer_new fifo_vc 2 = Some two_vcs"
    by (simp add: Buffer_new_def fifo_vc_def two_vcs_def numeral_2_eq_2)
  have r: "0 \<le> (1::int) \<and> (1::int) < int (length (b_vc two_vcs))"
    "0 \<le> (0::int) \<and> (0::int) < int (length (b_vc two_vcs))"
    "0 \<le> (1::int) \<and> (1::int) < int (length (b_vc \<lparr>b_vc = [[], [a_flit]]\<rparr>))"
    "\<not> (0 \<le> (2::int) \<and> (2::int) < int (length (b_vc two_vcs)))"
    by (simp_all add: two_vcs_def)
  note inst = Buffer_index[of fifo_vc]
  have "int (length (b_vc two_vcs)) = 2"
    using inst[of 2 0 two_vcs None, THEN conjunct1, rule_format, OF n] .
  moreover have "Buffer_AddFlit fifo_vc two_vcs 1 (Some a_flit)
                   = Inr (True, \<lparr>b_vc = [[], [a_flit]]\<rparr>)"
    using inst[of 2 1 two_vcs "Some a_flit", THEN conjunct2, THEN conjunct1, rule_format, OF r(1)]
    by (simp add: fifo_vc_def two_vcs_def)
  moreover have "Buffer_RemoveFlit fifo_vc \<lparr>b_vc = [[], [a_flit]]\<rparr> 1 = Inr (Some a_flit, two_vcs)"
    using inst[of 2 1 "\<lparr>b_vc = [[], [a_flit]]\<rparr>" None, THEN conjunct2, THEN conjunct1,
        rule_format, OF r(3)]
    by (simp add: fifo_vc_def two_vcs_def)
  moreover have "Buffer_Empty fifo_vc two_vcs 0 = Inr True"
    "Buffer_Full fifo_vc two_vcs 0 = Inr False"
    using inst[of 2 0 two_vcs None, THEN conjunct2, THEN conjunct1, rule_format, OF r(2)]
    by (simp_all add: fifo_vc_def two_vcs_def)
  moreover have "Buffer_Full fifo_vc two_vcs 2 = Inl OutOfBounds"
    using inst[of 2 2 two_vcs None, THEN conjunct2, THEN conjunct2, rule_format, OF r(4)]
    by simp
  ultimately show ?thesis by blast
qed

end
